theory Spec2Isabelle
  imports Complex_Main
begin

text \<open>
  The class \<open>Fisher\<close> of \<open>fisher.js\<close>: a loop that types a command into a chat,
  waits until the answers have settled, solves or refuses a captcha, and chooses the next
  command from the text of the last message. Each method of the class is a function of
  the same name here; the loops of \<open>getLastMessage\<close> and \<open>waitForMessagesSettled\<close>
  are \<open>getLastMessage_loop\<close> and \<open>settle_loop\<close>, and the body of the loop of
  \<open>start\<close> is \<open>cycle\<close>, in its two halves \<open>actAndSettle\<close> and \<open>detectAndDecide\<close>.
\<close>

section \<open>Strings\<close>

text \<open>
  A JavaScript string is modelled as the list of its code units, restricted to code
  units below 256 (the type \<open>char\<close>); \<open>length\<close> is then the \<open>.length\<close> of the source.
  On such strings \<open>String.prototype.toLowerCase\<close> maps \<open>A..Z\<close> and the upper-case
  letters of the Latin-1 block (\<open>0xC0..0xDE\<close> without the multiplication sign \<open>0xD7\<close>)
  to the code unit 32 above, and leaves every other code unit alone.
\<close>

definition toLowerChar :: "char \<Rightarrow> char" where
  "toLowerChar c =
     (let n = (of_char c :: nat)
      in if (65 \<le> n \<and> n \<le> 90) \<or> (192 \<le> n \<and> n \<le> 222 \<and> n \<noteq> 215)
         then char_of (n + 32) else c)"

definition toLowerCase :: "string \<Rightarrow> string" where
  "toLowerCase s = map toLowerChar s"

text \<open>
  \<open>str_includes s p\<close> is \<open>s.includes(p)\<close>: \<open>p\<close> occurs in \<open>s\<close> as a contiguous run of code units.
\<close>

fun str_includes :: "string \<Rightarrow> string \<Rightarrow> bool" where
  "str_includes [] p = (p = [])"
| "str_includes (c # cs) p = (take (length p) (c # cs) = p \<or> str_includes cs p)"

text \<open>
  The class \<open>\s\<close> of a JavaScript regular expression, on code units below 256: tab, line
  feed, vertical tab, form feed, carriage return, space and the no-break space.
\<close>

definition isSpace :: "char \<Rightarrow> bool" where
  "isSpace c = ((of_char c :: nat) \<in> {9, 10, 11, 12, 13, 32, 160})"

text \<open>
  \<open>captchaMsg.match(/Code:\s*(\S+)/i)\<close>. \<open>matchCodeAt s\<close> tries the pattern at the
  start of \<open>s\<close>: the five code units of the label, compared without regard to case (the
  flag \<open>i\<close> makes only \<open>c\<close>/\<open>C\<close>, \<open>o\<close>/\<open>O\<close>, \<open>d\<close>/\<open>D\<close>, \<open>e\<close>/\<open>E\<close> equal), the longest
  run of white space, and then the longest non-empty run of other code units, which is
  group 1. A shorter run of white space never helps (the next code unit would be white
  space, which \<open>\S\<close> refuses), so that the attempt fails exactly when the white space is
  followed by the end of the string. \<open>matchCode\<close> takes the leftmost position where the
  attempt succeeds, and is \<open>None\<close> where \<open>match\<close> returns \<open>null\<close>.
\<close>

definition matchCodeAt :: "string \<Rightarrow> string option" where
  "matchCodeAt s =
     (if toLowerCase (take 5 s) = ''code:''
      then (let code = takeWhile (\<lambda>c. \<not> isSpace c) (dropWhile isSpace (drop 5 s))
            in if code = [] then None else Some code)
      else None)"

fun matchCode :: "string \<Rightarrow> string option" where
  "matchCode [] = None"
| "matchCode (c # cs) =
     (case matchCodeAt (c # cs) of Some code \<Rightarrow> Some code | None \<Rightarrow> matchCode cs)"

section \<open>Doubles\<close>

text \<open>
  A JavaScript number is modelled by the rational number it stands for, and an operation
  on numbers by the exact operation followed by \<open>roundDouble\<close>, the rounding of IEEE 754
  binary64: to the nearest number with a significand of 53 bits, a tie going to the even
  significand. The range of the exponent is not bounded: infinities, NaN and subnormal
  numbers are outside this model. \<open>binaryExponent x\<close> is, for a positive \<open>x\<close>, the
  \<open>e\<close> with \<open>2 powi e \<le> x < 2 powi (e + 1)\<close>, found from the binary lengths of the
  numerator and the denominator of \<open>x\<close>.
\<close>

function ilog2 :: "int \<Rightarrow> int" where
  "ilog2 n = (if n < 2 then 0 else 1 + ilog2 (n div 2))"
  by pat_completeness auto
termination
  by (relation "measure nat") auto

declare ilog2.simps [simp del]

definition binaryExponent :: "rat \<Rightarrow> int" where
  "binaryExponent x =
     (case quotient_of x of (a, b) \<Rightarrow>
        (let d = ilog2 a - ilog2 b
         in if 2 powi d \<le> x then d else d - 1))"

definition roundHalfEven :: "rat \<Rightarrow> int" where
  "roundHalfEven m =
     (let n = \<lfloor>m\<rfloor>; f = m - of_int n
      in if f < 1 / 2 then n
         else if f > 1 / 2 then n + 1
         else if even n then n else n + 1)"

definition roundDouble :: "rat \<Rightarrow> rat" where
  "roundDouble x =
     (if x = 0 then 0
      else (let q = 2 powi (binaryExponent \<bar>x\<bar> - 52)
            in sgn x * of_int (roundHalfEven (\<bar>x\<bar> / q)) * q))"

text \<open>The operators \<open>*\<close>, \<open>/\<close> and \<open>-\<close> of the source, on numbers.\<close>

definition fmul :: "rat \<Rightarrow> rat \<Rightarrow> rat" where
  "fmul a b = roundDouble (a * b)"

definition fdiv :: "rat \<Rightarrow> rat \<Rightarrow> rat" where
  "fdiv a b = roundDouble (a / b)"

definition fsub :: "rat \<Rightarrow> rat \<Rightarrow> rat" where
  "fsub a b = roundDouble (a - b)"

section \<open>The page and the state of the fisher\<close>

text \<open>
  The page is the environment. \<open>timeline p t\<close> is the list of elements that the locator
  \<open>[id*="message-accessories-"]\<close> matches at time \<open>t\<close> (milliseconds, the unit of
  \<open>Date.now()\<close>), oldest first; an element is \<open>Some text\<close>, or \<open>None\<close> when its
  \<open>textContent()\<close> rejects. \<open>overshoot p t\<close> is how many milliseconds later than asked
  a \<open>waitForTimeout\<close> begun at time \<open>t\<close> resumes. The timeline is any function of time:
  whatever the remote side answers to the commands is one such function.

  Time passes in \<open>wait\<close> only: counting and reading the elements and typing into the text
  box are instantaneous, and they succeed (a failing transport is outside this model).
  Console output is not modelled.
\<close>

record page =
  timeline :: "int \<Rightarrow> string option list"
  overshoot :: "int \<Rightarrow> nat"

text \<open>
  What the fisher does to the outside world, in order: the suspensions it asks for (the
  number of milliseconds handed to \<open>waitForTimeout\<close>) and the commands it types.
\<close>

datatype event =
    Wait rat
  | Command string
  | CommandWithParams string string

text \<open>
  The object's fields \<open>running\<close> and \<open>lastFishResponseTime\<close>, its configuration
  (\<open>cooldown\<close> is \<open>config.cooldown\<close>, a number of seconds), the clock \<open>now\<close> read by
  \<open>Date.now()\<close>, a whole number of milliseconds, and the events so far.
\<close>

record fisher =
  running :: bool
  lastFishResponseTime :: int
  cooldown :: rat
  baitType :: string
  now :: int
  trace :: "event list"

datatype error =
    UnknownAction string
  | ImageCaptcha

datatype captcha =
    TextCaptcha (answer: string) (fullMessage: string)
  | ImageCaptchaFound (fullMessage: string)

subsection \<open>Timing and command sending\<close>

text \<open>
  \<open>wait p ms s\<close> is \<open>this.wait(seconds)\<close>, where \<open>ms\<close> is the product
  \<open>seconds * 1000\<close> that it hands to \<open>waitForTimeout\<close>; for the seconds \<open>0.1\<close>, \<open>0.3\<close>
  and \<open>1\<close> written in the source this product is 100, 300 and 1000. A timer of \<open>ms\<close>
  milliseconds does not resume before they have passed, so that the clock, which counts
  whole milliseconds, then reads at least \<open>\<lfloor>ms\<rfloor>\<close> more.
\<close>

definition wait :: "page \<Rightarrow> rat \<Rightarrow> fisher \<Rightarrow> fisher" where
  "wait p ms s =
     s\<lparr>now := now s + \<lfloor>ms\<rfloor> + int (overshoot p (now s)), trace := trace s @ [Wait ms]\<rparr>"

definition sendCommand :: "string \<Rightarrow> fisher \<Rightarrow> fisher" where
  "sendCommand command s = s\<lparr>trace := trace s @ [Command command]\<rparr>"

definition sendCommandWithParams :: "string \<Rightarrow> string \<Rightarrow> fisher \<Rightarrow> fisher" where
  "sendCommandWithParams command params s =
     s\<lparr>trace := trace s @ [CommandWithParams command params]\<rparr>"

subsection \<open>Message reading\<close>

definition getMessageCount :: "page \<Rightarrow> fisher \<Rightarrow> nat" where
  "getMessageCount p s = length (timeline p (now s))"

definition textContent :: "string option \<Rightarrow> string" where
  "textContent e = (case e of None \<Rightarrow> [] | Some text \<Rightarrow> text)"

definition getLastMessages :: "page \<Rightarrow> nat \<Rightarrow> fisher \<Rightarrow> string list" where
  "getLastMessages p count s =
     (let elements = timeline p (now s);
          total = length elements;
          start = nat (max 0 (int total - int count))
      in map textContent (drop start elements))"

text \<open>\<open>messages[0] || ''\<close>: the first element, or the empty string when there is none.\<close>

definition firstOrEmpty :: "string list \<Rightarrow> string" where
  "firstOrEmpty messages = (case messages of [] \<Rightarrow> [] | m # _ \<Rightarrow> m)"

definition isVirtualFisherResponse :: "string \<Rightarrow> bool" where
  "isVirtualFisherResponse msg =
     (str_includes msg ''You caught'' \<or> str_includes msg ''You sold'' \<or>
      str_includes msg ''You bought'' \<or> str_includes msg ''Bait purchase'' \<or>
      str_includes msg ''You ran out of'' \<or> str_includes msg ''Anti-bot'')"

function getLastMessage_loop :: "page \<Rightarrow> int \<Rightarrow> fisher \<Rightarrow> string \<times> fisher" where
  "getLastMessage_loop p startTime s =
     (if now s - startTime < 3000
      then (let msg = firstOrEmpty (getLastMessages p 1 s)
            in if isVirtualFisherResponse msg \<and> length msg > 10
               then (msg, s)
               else getLastMessage_loop p startTime (wait p 100 s))
      else (firstOrEmpty (getLastMessages p 1 s), s))"
  by pat_completeness auto
termination
  by (relation "measure (\<lambda>(p, startTime, s). nat (3000 - (now s - startTime)))")
     (auto simp: wait_def)

declare getLastMessage_loop.simps [simp del]

definition getLastMessage :: "page \<Rightarrow> fisher \<Rightarrow> string \<times> fisher" where
  "getLastMessage p s = getLastMessage_loop p (now s) s"

subsection \<open>Choosing the next action\<close>

text \<open>The body of \<open>determineNextAction\<close> below the read of the last message.\<close>

definition nextActionOf :: "string \<Rightarrow> string" where
  "nextActionOf lastMsg =
     (let msg = toLowerCase lastMsg
      in if str_includes msg ''you ran out of'' then ''sell''
         else if str_includes msg ''you sold'' then ''buy''
         else if str_includes msg ''you bought'' \<or> str_includes msg ''bait purchase'' then ''fish''
         else ''fish'')"

definition determineNextAction :: "page \<Rightarrow> fisher \<Rightarrow> string \<times> fisher" where
  "determineNextAction p s =
     (case getLastMessage p s of (lastMsg, s') \<Rightarrow> (nextActionOf lastMsg, s'))"

subsection \<open>Captcha handling\<close>

definition detectCaptcha :: "page \<Rightarrow> fisher \<Rightarrow> captcha option" where
  "detectCaptcha p s =
     (let messages = getLastMessages p 2 s
      in case find (\<lambda>m. str_includes (toLowerCase m) ''anti-bot'') messages of
           None \<Rightarrow> None
         | Some captchaMsg \<Rightarrow>
             (case matchCode captchaMsg of
                Some code \<Rightarrow> Some (TextCaptcha code captchaMsg)
              | None \<Rightarrow> Some (ImageCaptchaFound captchaMsg)))"

text \<open>
  \<open>handleCaptcha\<close> prints the message and the sources of the images attached to it,
  neither of which is modelled, and then answers a text captcha or throws.
\<close>

definition handleCaptcha :: "page \<Rightarrow> captcha \<Rightarrow> fisher \<Rightarrow> fisher \<times> (error + unit)" where
  "handleCaptcha p c s =
     (case c of
        TextCaptcha code _ \<Rightarrow> (wait p 1000 (sendCommandWithParams ''/verify'' code s), Inr ())
      | ImageCaptchaFound _ \<Rightarrow> (s, Inl ImageCaptcha))"

subsection \<open>Waiting for the response and for the cooldown\<close>

text \<open>
  \<open>waitForMessagesSettled\<close> returns nothing; the model returns which of its two exits
  was taken: \<open>Settled\<close> is the \<open>return\<close> inside the loop, \<open>TimedOut\<close> the end of the
  loop, where the warning is printed.
\<close>

datatype settle_exit = Settled | TimedOut

function settle_loop ::
  "page \<Rightarrow> int \<Rightarrow> int \<Rightarrow> int \<Rightarrow> nat \<Rightarrow> int \<Rightarrow> fisher \<Rightarrow> settle_exit \<times> fisher" where
  "settle_loop p startTime settleMs timeoutMs lastCount lastChangeTime s =
     (if now s - startTime < timeoutMs
      then (let s1 = wait p 100 s;
                currentCount = getMessageCount p s1;
                lastCount' = (if currentCount > lastCount then currentCount else lastCount);
                lastChangeTime' = (if currentCount > lastCount then now s1 else lastChangeTime)
            in if now s1 - lastChangeTime' \<ge> settleMs
               then (Settled, s1)
               else settle_loop p startTime settleMs timeoutMs lastCount' lastChangeTime' s1)
      else (TimedOut, s))"
  by pat_completeness auto
termination
  by (relation "measure (\<lambda>(p, startTime, settleMs, timeoutMs, lastCount, lastChangeTime, s).
                   nat (timeoutMs - (now s - startTime)))")
     (auto simp: wait_def)

declare settle_loop.simps [simp del]

definition waitForMessagesSettled ::
  "page \<Rightarrow> nat \<Rightarrow> int \<Rightarrow> int \<Rightarrow> fisher \<Rightarrow> settle_exit \<times> fisher" where
  "waitForMessagesSettled p previousCount settleMs timeoutMs s =
     settle_loop p (now s) settleMs timeoutMs previousCount (now s) s"

text \<open>
  In \<open>waitForCooldown\<close> the elapsed time is a difference of whole milliseconds, which is
  exact; the product, the difference and the quotient that follow are operations on
  numbers, and \<open>this.wait(remaining / 1000)\<close> multiplies by 1000 again before it reaches
  \<open>waitForTimeout\<close>.
\<close>

definition waitForCooldown :: "page \<Rightarrow> fisher \<Rightarrow> fisher" where
  "waitForCooldown p s =
     (if lastFishResponseTime s = 0 then s
      else (let elapsed = now s - lastFishResponseTime s;
                cooldownMs = fmul (cooldown s) 1000;
                remaining = fsub cooldownMs (of_int elapsed)
            in if remaining > 0 then wait p (fmul (fdiv remaining 1000) 1000) s else s))"

subsection \<open>Action execution and the main loop\<close>

text \<open>An action is the string the source keeps in \<open>nextAction\<close>.\<close>

definition executeAction :: "string \<Rightarrow> fisher \<Rightarrow> fisher \<times> (error + unit)" where
  "executeAction action s =
     (if action = ''fish'' then (sendCommand ''/fish'' s, Inr ())
      else if action = ''sell'' then (sendCommandWithParams ''/sell'' ''all'' s, Inr ())
      else if action = ''buy''
        then (sendCommandWithParams ''/buy'' (baitType s @ '' 50'') s, Inr ())
      else (s, Inl (UnknownAction action)))"

text \<open>
  The first half of the loop body: the cooldown, the command, the wait for the response
  (with the default windows of 300 and 5000 milliseconds), the 0.3 seconds for rendering
  and the record of the response time.
\<close>

definition actAndSettle :: "page \<Rightarrow> string \<Rightarrow> fisher \<Rightarrow> fisher \<times> (error + unit)" where
  "actAndSettle p nextAction s =
     (let s1 = (if nextAction = ''fish'' then waitForCooldown p s else s);
          msgCountBefore = getMessageCount p s1
      in case executeAction nextAction s1 of
           (s2, Inl e) \<Rightarrow> (s2, Inl e)
         | (s2, Inr _) \<Rightarrow>
             (let s3 = snd (waitForMessagesSettled p msgCountBefore 300 5000 s2);
                  s4 = wait p 300 s3;
                  s5 = (if nextAction = ''fish''
                        then s4\<lparr>lastFishResponseTime := now s4\<rparr> else s4)
              in (s5, Inr ())))"

text \<open>
  The second half: the captcha check and the choice of the next action. An error is
  printed and thrown again by the \<open>catch\<close> of the source, which is to return it.
\<close>

definition detectAndDecide :: "page \<Rightarrow> fisher \<Rightarrow> fisher \<times> (error + string)" where
  "detectAndDecide p s =
     (case detectCaptcha p s of
        None \<Rightarrow> (case determineNextAction p s of (a, s') \<Rightarrow> (s', Inr a))
      | Some c \<Rightarrow>
          (case handleCaptcha p c s of
             (s1, Inl e) \<Rightarrow> (s1, Inl e)
           | (s1, Inr _) \<Rightarrow> (case determineNextAction p s1 of (a, s') \<Rightarrow> (s', Inr a))))"

definition cycle :: "page \<Rightarrow> string \<Rightarrow> fisher \<Rightarrow> fisher \<times> (error + string)" where
  "cycle p nextAction s =
     (case actAndSettle p nextAction s of
        (s1, Inl e) \<Rightarrow> (s1, Inl e)
      | (s1, Inr _) \<Rightarrow> detectAndDecide p s1)"

text \<open>
  The loop \<open>while (this.running)\<close> may run for ever, so that it takes fuel, one unit for
  each pass: \<open>None\<close> is a loop still running when the fuel is used up, \<open>Some (Inl e)\<close> the
  error \<open>e\<close> thrown out of \<open>start\<close>, \<open>Some (Inr ())\<close> the return of \<open>start\<close>.
\<close>

fun start_loop :: "nat \<Rightarrow> page \<Rightarrow> string \<Rightarrow> fisher \<Rightarrow> fisher \<times> (error + unit) option" where
  "start_loop 0 p nextAction s = (s, None)"
| "start_loop (Suc n) p nextAction s =
     (if running s
      then (case cycle p nextAction s of
              (s', Inl e) \<Rightarrow> (s', Some (Inl e))
            | (s', Inr a) \<Rightarrow> start_loop n p a s')
      else (s, Some (Inr ())))"

definition start :: "nat \<Rightarrow> page \<Rightarrow> fisher \<Rightarrow> fisher \<times> (error + unit) option" where
  "start n p s = start_loop n p ''fish'' (s\<lparr>running := True\<rparr>)"

definition stop :: "fisher \<Rightarrow> fisher" where
  "stop s = s\<lparr>running := False\<rparr>"

text \<open>
  The constructor, for a cooldown in seconds, a bait and the time on the clock: not
  running, and no fish response seen yet.
\<close>

definition newFisher :: "rat \<Rightarrow> string \<Rightarrow> int \<Rightarrow> fisher" where
  "newFisher seconds bait t =
     \<lparr>running = False, lastFishResponseTime = 0, cooldown = seconds,
      baitType = bait, now = t, trace = []\<rparr>"

section \<open>Notions used to state the properties\<close>

text \<open>
  The text of the most recent entry of the timeline at time \<open>t\<close>, as a read of it gives
  it: empty when the timeline is empty or the read fails.
\<close>

definition mostRecentEntry :: "page \<Rightarrow> int \<Rightarrow> string" where
  "mostRecentEntry p t = (case rev (timeline p t) of [] \<Rightarrow> [] | e # _ \<Rightarrow> textContent e)"

definition entryCount :: "page \<Rightarrow> int \<Rightarrow> nat" where
  "entryCount p t = length (timeline p t)"

text \<open>
  Pages to run the model on, all with punctual timers: first a timeline that never
  changes, and a timeline to which further entries are added at one moment.
\<close>

definition steadyPage :: "string option list \<Rightarrow> page" where
  "steadyPage es = \<lparr>timeline = (\<lambda>t. es), overshoot = (\<lambda>t. 0)\<rparr>"

definition arrivalPage :: "string option list \<Rightarrow> int \<Rightarrow> string option list \<Rightarrow> page" where
  "arrivalPage es arrival new =
     \<lparr>timeline = (\<lambda>t. if t < arrival then es else es @ new), overshoot = (\<lambda>t. 0)\<rparr>"

text \<open>A timeline that gains one entry every 100 milliseconds.\<close>

definition growingPage :: page where
  "growingPage =
     \<lparr>timeline = (\<lambda>t. replicate (nat (t div 100)) (Some ''You caught a cod!'')),
      overshoot = (\<lambda>t. 0)\<rparr>"

section \<open>Auxiliary facts\<close>

subsection \<open>The error of rounding\<close>

lemma ilog2_nonneg: "0 \<le> ilog2 n"
proof (induction n rule: ilog2.induct)
  case (1 n)
  show ?case
  proof (cases "n < 2")
    case True
    then show ?thesis by (subst ilog2.simps) simp
  next
    case False
    with "1.IH" have "0 \<le> ilog2 (n div 2)" by simp
    with False show ?thesis by (subst ilog2.simps) simp
  qed
qed

lemma ilog2_bounds:
  "0 < n \<Longrightarrow> 2 ^ nat (ilog2 n) \<le> n \<and> n < 2 ^ nat (ilog2 n + 1)"
proof (induction n rule: ilog2.induct)
  case (1 n)
  show ?case
  proof (cases "n < 2")
    case True
    with "1.prems" have "n = 1" by simp
    then show ?thesis by (subst ilog2.simps, subst (2) ilog2.simps) simp
  next
    case False
    then have pos: "0 < n div 2" by simp
    with "1.IH" False
    have ih: "2 ^ nat (ilog2 (n div 2)) \<le> n div 2" "n div 2 < 2 ^ nat (ilog2 (n div 2) + 1)"
      by simp_all
    have e: "ilog2 n = 1 + ilog2 (n div 2)" using False by (subst ilog2.simps) simp
    have k: "0 \<le> ilog2 (n div 2)" by (rule ilog2_nonneg)
    have p1: "(2::int) ^ nat (1 + ilog2 (n div 2)) = 2 * 2 ^ nat (ilog2 (n div 2))"
      using k by (simp add: nat_add_distrib)
    have p2: "(2::int) ^ nat (1 + ilog2 (n div 2) + 1) = 2 * 2 ^ nat (ilog2 (n div 2) + 1)"
      using k by (simp add: nat_add_distrib)
    have "2 * (n div 2) \<le> n" "n < 2 * (n div 2) + 2" by presburger+
    with ih have "2 * 2 ^ nat (ilog2 (n div 2)) \<le> n" "n < 2 * 2 ^ nat (ilog2 (n div 2) + 1)"
      by linarith+
    then show ?thesis by (simp only: e p1 p2)
  qed
qed

lemma powi_nat: "0 \<le> k \<Longrightarrow> (2::rat) powi k = 2 ^ nat k"
  by (simp add: power_int_def)

lemma binaryExponent_bounds:
  assumes "0 < x"
  shows "2 powi binaryExponent x \<le> x" "x < 2 powi (binaryExponent x + 1)"
proof -
  obtain a b where q: "quotient_of x = (a, b)" by (cases "quotient_of x")
  then have b: "0 < b" and x: "x = of_int a / of_int b"
    using quotient_of_denom_pos quotient_of_div by blast+
  with assms have a: "0 < a" by (simp add: zero_less_divide_iff)
  define la where "la = ilog2 a"
  define lb where "lb = ilog2 b"
  have la0: "0 \<le> la" and lb0: "0 \<le> lb" by (simp_all add: la_def lb_def ilog2_nonneg)
  from ilog2_bounds[OF a] have "2 ^ nat la \<le> a" "a < 2 ^ nat (la + 1)"
    by (simp_all add: la_def)
  then have "(of_int (2 ^ nat la) :: rat) \<le> of_int a" "(of_int a :: rat) < of_int (2 ^ nat (la + 1))"
    by (simp_all only: of_int_le_iff of_int_less_iff)
  then have A: "(2::rat) powi la \<le> of_int a" "(of_int a :: rat) < 2 powi (la + 1)"
    using la0 by (simp_all add: powi_nat)
  from ilog2_bounds[OF b] have "2 ^ nat lb \<le> b" "b < 2 ^ nat (lb + 1)"
    by (simp_all add: lb_def)
  then have "(of_int (2 ^ nat lb) :: rat) \<le> of_int b" "(of_int b :: rat) < of_int (2 ^ nat (lb + 1))"
    by (simp_all only: of_int_le_iff of_int_less_iff)
  then have B: "(2::rat) powi lb \<le> of_int b" "(of_int b :: rat) < 2 powi (lb + 1)"
    using lb0 by (simp_all add: powi_nat)
  have bpos: "(0::rat) < of_int b" using b by simp
  have lower: "2 powi (la - lb - 1) \<le> x"
  proof -
    have "(2::rat) powi (la - lb - 1) * of_int b \<le> 2 powi (la - lb - 1) * 2 powi (lb + 1)"
      using B(2) by (intro mult_left_mono) simp_all
    also have "\<dots> = 2 powi la"
      by (simp add: power_int_add[symmetric])
    also have "\<dots> \<le> of_int a" by (rule A(1))
    finally show ?thesis using bpos by (simp add: x pos_le_divide_eq)
  qed
  have upper: "x < 2 powi (la - lb + 1)"
  proof -
    have "of_int a < (2::rat) powi (la + 1)" by (rule A(2))
    also have "\<dots> = 2 powi (la - lb + 1) * 2 powi lb"
      by (simp add: power_int_add[symmetric])
    also have "\<dots> \<le> 2 powi (la - lb + 1) * of_int b"
      using B(1) by (intro mult_left_mono) simp_all
    finally show ?thesis using bpos by (simp add: x pos_divide_less_eq)
  qed
  have e: "binaryExponent x = (if 2 powi (la - lb) \<le> x then la - lb else la - lb - 1)"
    by (simp add: binaryExponent_def q la_def lb_def Let_def)
  show "2 powi binaryExponent x \<le> x"
    using lower by (simp add: e)
  show "x < 2 powi (binaryExponent x + 1)"
    using upper by (auto simp: e)
qed

lemma roundHalfEven_error: "\<bar>of_int (roundHalfEven m) - m\<bar> \<le> 1 / 2"
proof -
  have "of_int \<lfloor>m\<rfloor> \<le> m" "m < of_int \<lfloor>m\<rfloor> + 1" by linarith+
  then show ?thesis by (auto simp: roundHalfEven_def Let_def)
qed

lemma roundDouble_error:
  assumes "0 < x"
  shows "\<bar>roundDouble x - x\<bar> \<le> x / 2 ^ 53" "0 < roundDouble x"
proof -
  define e where "e = binaryExponent x"
  define q where "q = (2::rat) powi (e - 52)"
  define n where "n = roundHalfEven (x / q)"
  have qpos: "0 < q" by (simp add: q_def)
  have r: "roundDouble x = of_int n * q"
    using assms by (simp add: roundDouble_def Let_def e_def q_def n_def)
  have le: "2 powi e \<le> x" using binaryExponent_bounds(1)[OF assms] by (simp add: e_def)
  have q2: "q * 2 ^ 52 = 2 powi e"
  proof -
    have "(2::rat) powi (e - 52 + 52) = 2 powi (e - 52) * 2 powi 52"
      by (rule power_int_add) simp
    moreover have "(2::rat) powi 52 = 2 ^ 52" by (simp add: power_int_def)
    ultimately show ?thesis by (simp add: q_def)
  qed
  have "\<bar>of_int n - x / q\<bar> \<le> 1 / 2" unfolding n_def by (rule roundHalfEven_error)
  then have "\<bar>of_int n - x / q\<bar> * q \<le> 1 / 2 * q"
    using qpos by (intro mult_right_mono) simp_all
  moreover have "\<bar>of_int n - x / q\<bar> * q = \<bar>of_int n * q - x\<bar>"
  proof -
    have "\<bar>of_int n - x / q\<bar> * q = \<bar>(of_int n - x / q) * q\<bar>"
      using qpos by (simp add: abs_mult)
    also have "(of_int n - x / q) * q = of_int n * q - x"
      using qpos by (simp add: algebra_simps)
    finally show ?thesis .
  qed
  ultimately have err: "\<bar>of_int n * q - x\<bar> \<le> q / 2" by simp
  have "q * 2 ^ 52 \<le> x" using le q2 by simp
  then have qx: "q / 2 \<le> x / 2 ^ 53" by (simp add: field_simps)
  from err qx show "\<bar>roundDouble x - x\<bar> \<le> x / 2 ^ 53" by (simp add: r)
  have "x / 2 ^ 53 < x" using assms by (simp add: field_simps)
  with err qx have "0 < of_int n * q" by linarith
  then show "0 < roundDouble x" by (simp add: r)
qed

lemma seconds_round_trip:
  assumes "0 < r"
  shows "\<bar>fmul (fdiv r 1000) 1000 - r\<bar> \<le> r / 2 ^ 51"
proof -
  define y where "y = fdiv r 1000"
  define w where "w = fmul y 1000"
  have r1: "0 < r / 1000" using assms by simp
  have y: "\<bar>y - r / 1000\<bar> \<le> r / 1000 / 2 ^ 53" "0 < y"
    using roundDouble_error[OF r1] by (simp_all add: y_def fdiv_def)
  then have y1: "0 < y * 1000" by simp
  have w: "\<bar>w - y * 1000\<bar> \<le> y * 1000 / 2 ^ 53"
    using roundDouble_error(1)[OF y1] by (simp add: w_def fmul_def)
  have a: "\<bar>y * 1000 - r\<bar> \<le> r / 2 ^ 53"
  proof -
    have "\<bar>y * 1000 - r\<bar> = \<bar>y - r / 1000\<bar> * 1000" by (simp add: abs_if field_simps)
    also have "\<dots> \<le> r / 1000 / 2 ^ 53 * 1000" using y(1) by (intro mult_right_mono) simp_all
    finally show ?thesis by simp
  qed
  then have "y * 1000 \<le> r + r / 2 ^ 53" by linarith
  also have "\<dots> \<le> 2 * r" using assms by (simp add: field_simps)
  finally have "y * 1000 / 2 ^ 53 \<le> 2 * r / 2 ^ 53" by (simp add: divide_right_mono)
  with w have b: "\<bar>w - y * 1000\<bar> \<le> 2 * r / 2 ^ 53" by linarith
  have "\<bar>w - r\<bar> \<le> \<bar>w - y * 1000\<bar> + \<bar>y * 1000 - r\<bar>" by linarith
  with a b have "\<bar>w - r\<bar> \<le> 2 * r / 2 ^ 53 + r / 2 ^ 53" by linarith
  also have "\<dots> \<le> r / 2 ^ 51" using assms by (simp add: field_simps)
  finally show ?thesis by (simp add: w_def y_def)
qed

subsection \<open>Occurrence of a substring, and the poll of the last message\<close>

text \<open>\<open>str_includes\<close> is occurrence as a contiguous run.\<close>

lemma str_includes_iff: "str_includes s q \<longleftrightarrow> (\<exists>pre suf. s = pre @ q @ suf)"
proof (induction s)
  case Nil
  then show ?case by auto
next
  case (Cons c cs)
  have "take (length q) (c # cs) = q \<longleftrightarrow> (\<exists>suf. c # cs = q @ suf)"
    by (metis append_eq_conv_conj append_take_drop_id)
  moreover have "(\<exists>pre suf. c # cs = pre @ q @ suf) \<longleftrightarrow>
      (\<exists>suf. c # cs = q @ suf) \<or> (\<exists>pre suf. cs = pre @ q @ suf)"
  proof
    assume "\<exists>pre suf. c # cs = pre @ q @ suf"
    then obtain pre suf where e: "c # cs = pre @ q @ suf" by blast
    show "(\<exists>suf. c # cs = q @ suf) \<or> (\<exists>pre suf. cs = pre @ q @ suf)"
    proof (cases pre)
      case Nil
      with e show ?thesis by auto
    next
      case (Cons a pre')
      with e have "cs = pre' @ q @ suf" by simp
      then show ?thesis by blast
    qed
  next
    assume "(\<exists>suf. c # cs = q @ suf) \<or> (\<exists>pre suf. cs = pre @ q @ suf)"
    then show "\<exists>pre suf. c # cs = pre @ q @ suf"
    proof
      assume "\<exists>suf. c # cs = q @ suf"
      then show ?thesis by (metis append_Nil)
    next
      assume "\<exists>pre suf. cs = pre @ q @ suf"
      then obtain pre suf where "cs = pre @ q @ suf" by blast
      then have "c # cs = (c # pre) @ q @ suf" by simp
      then show ?thesis by blast
    qed
  qed
  ultimately show ?case using Cons.IH by simp
qed

lemma wait_frame [simp]:
  "running (wait p ms s) = running s"
  "lastFishResponseTime (wait p ms s) = lastFishResponseTime s"
  "cooldown (wait p ms s) = cooldown s"
  "baitType (wait p ms s) = baitType s"
  "now (wait p ms s) = now s + \<lfloor>ms\<rfloor> + int (overshoot p (now s))"
  "trace (wait p ms s) = trace s @ [Wait ms]"
  by (simp_all add: wait_def)

lemma getLastMessage_loop_frame:
  "getLastMessage_loop p st s = (m, s') \<Longrightarrow>
     running s' = running s \<and> lastFishResponseTime s' = lastFishResponseTime s \<and>
     cooldown s' = cooldown s \<and> baitType s' = baitType s \<and> now s \<le> now s' \<and>
     (\<exists>k. trace s' = trace s @ replicate k (Wait 100)) \<and>
     m = firstOrEmpty (getLastMessages p 1 s')"
proof (induction p st s rule: getLastMessage_loop.induct)
  case (1 p startTime s)
  show ?case
  proof (cases "now s - startTime < 3000 \<and>
      \<not> (isVirtualFisherResponse (firstOrEmpty (getLastMessages p 1 s)) \<and>
         length (firstOrEmpty (getLastMessages p 1 s)) > 10)")
    case True
    then have "getLastMessage_loop p startTime (wait p 100 s) = (m, s')"
      using "1.prems" by (subst (asm) getLastMessage_loop.simps) (auto simp: Let_def split: if_splits)
    from "1.IH"[OF _ refl _ this] True
    have ih: "running s' = running (wait p 100 s) \<and>
      lastFishResponseTime s' = lastFishResponseTime (wait p 100 s) \<and>
      cooldown s' = cooldown (wait p 100 s) \<and> baitType s' = baitType (wait p 100 s) \<and>
      now (wait p 100 s) \<le> now s' \<and>
      (\<exists>k. trace s' = trace (wait p 100 s) @ replicate k (Wait 100)) \<and>
      m = firstOrEmpty (getLastMessages p 1 s')" by blast
    then obtain k where "trace s' = trace (wait p 100 s) @ replicate k (Wait 100)" by blast
    then have "trace s' = trace s @ replicate (Suc k) (Wait 100)" by simp
    then have tr: "\<exists>k. trace s' = trace s @ replicate k (Wait 100)" by blast
    have "now s \<le> now (wait p 100 s)" by simp
    with ih have "now s \<le> now s'" by linarith
    with ih tr show ?thesis by simp
  next
    case False
    then have "m = firstOrEmpty (getLastMessages p 1 s) \<and> s' = s"
      using "1.prems" by (subst (asm) getLastMessage_loop.simps) (auto simp: Let_def split: if_splits)
    then show ?thesis by (auto intro: exI[of _ 0])
  qed
qed

subsection \<open>What the reading and waiting loops leave alone\<close>

lemma start_index: "nat (max 0 (int n - int k)) = n - k"
  by simp

lemma getLastMessages_drop:
  "getLastMessages p count s =
     map textContent (drop (length (timeline p (now s)) - count) (timeline p (now s)))"
  by (simp only: getLastMessages_def Let_def start_index)

lemma firstOrEmpty_getLastMessages:
  "firstOrEmpty (getLastMessages p (Suc 0) s) = mostRecentEntry p (now s)"
proof (cases "timeline p (now s)" rule: rev_cases)
  case Nil
  then show ?thesis
    by (simp add: firstOrEmpty_def getLastMessages_drop mostRecentEntry_def)
next
  case (snoc es e)
  then show ?thesis
    by (simp add: firstOrEmpty_def getLastMessages_drop mostRecentEntry_def)
qed

lemma getLastMessage_frame:
  assumes "getLastMessage p s = (m, s')"
  shows "running s' = running s" "lastFishResponseTime s' = lastFishResponseTime s"
    "cooldown s' = cooldown s" "baitType s' = baitType s" "now s \<le> now s'"
    "\<exists>k. trace s' = trace s @ replicate k (Wait 100)"
    "m = mostRecentEntry p (now s')"
  using getLastMessage_loop_frame[of p "now s" s m s'] assms
  by (simp_all add: getLastMessage_def firstOrEmpty_getLastMessages)

lemma determineNextAction_frame:
  assumes "determineNextAction p s = (a, s')"
  shows "running s' = running s" "lastFishResponseTime s' = lastFishResponseTime s"
    "cooldown s' = cooldown s" "baitType s' = baitType s" "now s \<le> now s'"
    "\<exists>k. trace s' = trace s @ replicate k (Wait 100)"
    "a = nextActionOf (mostRecentEntry p (now s'))"
proof -
  obtain m where g: "getLastMessage p s = (m, s')" and a: "a = nextActionOf m"
    using assms by (auto simp: determineNextAction_def split: prod.splits)
  note f = getLastMessage_frame[OF g]
  show "running s' = running s" "lastFishResponseTime s' = lastFishResponseTime s"
    "cooldown s' = cooldown s" "baitType s' = baitType s" "now s \<le> now s'"
    "\<exists>k. trace s' = trace s @ replicate k (Wait 100)"
    "a = nextActionOf (mostRecentEntry p (now s'))"
    using f a by simp_all
qed

lemma settle_loop_frame:
  "settle_loop p st settleMs timeoutMs lc lct s = (r, s') \<Longrightarrow>
     running s' = running s \<and> lastFishResponseTime s' = lastFishResponseTime s \<and>
     cooldown s' = cooldown s \<and> baitType s' = baitType s \<and> now s \<le> now s' \<and>
     (\<exists>k. trace s' = trace s @ replicate k (Wait 100))"
proof (induction p st settleMs timeoutMs lc lct s rule: settle_loop.induct)
  case (1 p startTime settleMs timeoutMs lastCount lastChangeTime s)
  define s1 where "s1 = wait p 100 s"
  define cc where "cc = getMessageCount p s1"
  define lc' where "lc' = (if cc > lastCount then cc else lastCount)"
  define lct' where "lct' = (if cc > lastCount then now s1 else lastChangeTime)"
  have step: "now s \<le> now s1" "trace s1 = trace s @ [Wait 100]" "running s1 = running s"
    "lastFishResponseTime s1 = lastFishResponseTime s" "cooldown s1 = cooldown s"
    "baitType s1 = baitType s"
    by (simp_all add: s1_def)
  have unf: "settle_loop p startTime settleMs timeoutMs lastCount lastChangeTime s =
     (if now s - startTime < timeoutMs
      then if now s1 - lct' \<ge> settleMs then (Settled, s1)
           else settle_loop p startTime settleMs timeoutMs lc' lct' s1
      else (TimedOut, s))"
    by (subst settle_loop.simps) (simp add: Let_def s1_def cc_def lc'_def lct'_def)
  consider (timeout) "\<not> now s - startTime < timeoutMs"
    | (settled) "now s - startTime < timeoutMs" "now s1 - lct' \<ge> settleMs"
    | (again) "now s - startTime < timeoutMs" "\<not> now s1 - lct' \<ge> settleMs"
    by blast
  then show ?case
  proof cases
    case timeout
    with unf "1.prems" have "s' = s" by simp
    then show ?thesis by (auto intro: exI[of _ 0])
  next
    case settled
    with unf "1.prems" have "s' = s1" by simp
    with step show ?thesis by (auto intro: exI[of _ 1])
  next
    case again
    with unf "1.prems"
    have rec: "settle_loop p startTime settleMs timeoutMs lc' lct' s1 = (r, s')" by simp
    have ih: "running s' = running s1 \<and> lastFishResponseTime s' = lastFishResponseTime s1 \<and>
      cooldown s' = cooldown s1 \<and> baitType s' = baitType s1 \<and> now s1 \<le> now s' \<and>
      (\<exists>k. trace s' = trace s1 @ replicate k (Wait 100))"
      using "1.IH"[OF again(1) s1_def cc_def lc'_def lct'_def again(2) rec] .
    then obtain k where "trace s' = trace s1 @ replicate k (Wait 100)" by blast
    with step have "trace s' = trace s @ replicate (Suc k) (Wait 100)" by simp
    then have "\<exists>k. trace s' = trace s @ replicate k (Wait 100)" by blast
    moreover have "now s \<le> now s'" using ih step by linarith
    ultimately show ?thesis using ih step by simp
  qed
qed

subsection \<open>The exits of the wait for the response\<close>

lemma settle_loop_exit:
  "settle_loop p st settleMs timeoutMs lc lct s = (r, s') \<Longrightarrow>
     \<forall>t t'. t \<le> t' \<longrightarrow> entryCount p t \<le> entryCount p t' \<Longrightarrow>
     st \<le> lct \<Longrightarrow> lct \<le> now s \<Longrightarrow> lc \<le> entryCount p lct \<Longrightarrow>
     (r = Settled \<and> (\<exists>t0. st \<le> t0 \<and> t0 \<le> now s' \<and> t0 + settleMs \<le> now s' \<and>
                         entryCount p (now s') = entryCount p t0)) \<or>
     (r = TimedOut \<and> timeoutMs \<le> now s' - st)"
proof (induction p st settleMs timeoutMs lc lct s rule: settle_loop.induct)
  case (1 p startTime settleMs timeoutMs lastCount lastChangeTime s)
  note mono = "1.prems"(2)
  define s1 where "s1 = wait p 100 s"
  define cc where "cc = getMessageCount p s1"
  define lc' where "lc' = (if cc > lastCount then cc else lastCount)"
  define lct' where "lct' = (if cc > lastCount then now s1 else lastChangeTime)"
  have step: "now s \<le> now s1" by (simp add: s1_def)
  have cc: "cc = entryCount p (now s1)" by (simp add: cc_def getMessageCount_def entryCount_def)
  have unf: "settle_loop p startTime settleMs timeoutMs lastCount lastChangeTime s =
     (if now s - startTime < timeoutMs
      then if now s1 - lct' \<ge> settleMs then (Settled, s1)
           else settle_loop p startTime settleMs timeoutMs lc' lct' s1
      else (TimedOut, s))"
    by (subst settle_loop.simps) (simp add: Let_def s1_def cc_def lc'_def lct'_def)
  have inv: "startTime \<le> lct'" "lct' \<le> now s1" "lc' \<le> entryCount p lct'"
    using "1.prems"(3,4,5) step cc by (auto simp: lct'_def lc'_def)
  have le: "cc \<le> lc'" by (simp add: lc'_def)
  consider (timeout) "\<not> now s - startTime < timeoutMs"
    | (settled) "now s - startTime < timeoutMs" "now s1 - lct' \<ge> settleMs"
    | (again) "now s - startTime < timeoutMs" "\<not> now s1 - lct' \<ge> settleMs"
    by blast
  then show ?case
  proof cases
    case timeout
    with unf "1.prems"(1) have "r = TimedOut" "s' = s" by simp_all
    with timeout show ?thesis by simp
  next
    case settled
    with unf "1.prems"(1) have r: "r = Settled" "s' = s1" by simp_all
    have "entryCount p lct' \<le> entryCount p (now s1)" using mono inv(2) by blast
    with le inv(3) cc have "entryCount p (now s1) = entryCount p lct'" by linarith
    moreover have "lct' + settleMs \<le> now s1" using settled(2) by linarith
    ultimately show ?thesis using r inv by blast
  next
    case again
    with unf "1.prems"(1)
    have rec: "settle_loop p startTime settleMs timeoutMs lc' lct' s1 = (r, s')" by simp
    show ?thesis
      using "1.IH"[OF again(1) s1_def cc_def lc'_def lct'_def again(2) rec mono inv] .
  qed
qed

subsection \<open>The pattern of the code\<close>

lemma length_toLowerCase [simp]: "length (toLowerCase s) = length s"
  by (simp add: toLowerCase_def)

lemma toLowerCase_append [simp]: "toLowerCase (a @ b) = toLowerCase a @ toLowerCase b"
  by (simp add: toLowerCase_def)

lemma toLowerCase_take: "toLowerCase (take n s) = take n (toLowerCase s)"
  by (simp add: toLowerCase_def take_map)

lemma str_includes_label: "take 5 s = ''code:'' \<Longrightarrow> str_includes s ''code:''"
  by (cases s) (simp_all add: eval_nat_numeral)

lemma matchCodeAt_label:
  "matchCodeAt s = Some code \<Longrightarrow> take 5 (toLowerCase s) = ''code:''"
  by (auto simp: matchCodeAt_def toLowerCase_take split: if_splits)

lemma matchCode_no_label:
  "\<not> str_includes (toLowerCase m) ''code:'' \<Longrightarrow> matchCode m = None"
proof (induction m)
  case Nil
  then show ?case by simp
next
  case (Cons c cs)
  have "matchCodeAt (c # cs) = None"
  proof (cases "matchCodeAt (c # cs)")
    case (Some code)
    then have "take 5 (toLowerCase (c # cs)) = ''code:''"
      by (rule matchCodeAt_label)
    then have "str_includes (toLowerCase (c # cs)) ''code:''"
      by (rule str_includes_label)
    with Cons.prems show ?thesis by simp
  qed simp
  moreover have "\<not> str_includes (toLowerCase cs) ''code:''"
    using Cons.prems by (auto simp: toLowerCase_def)
  ultimately show ?case using Cons.IH by simp
qed

lemma matchCodeAt_here:
  assumes lbl: "toLowerCase lbl = ''code:''"
    and ws: "\<forall>c\<in>set ws. isSpace c"
    and code: "code \<noteq> []" "\<forall>c\<in>set code. \<not> isSpace c"
    and rest: "rest = [] \<or> isSpace (hd rest)"
  shows "matchCodeAt (lbl @ ws @ code @ rest) = Some code"
proof -
  have len: "length lbl = 5"
    using arg_cong[OF lbl, of length] by simp
  have d: "dropWhile isSpace (ws @ code @ rest) = code @ rest"
  proof -
    have "dropWhile isSpace (ws @ code @ rest) = dropWhile isSpace (code @ rest)"
      using ws by (simp add: dropWhile_append2)
    also have "\<dots> = code @ rest"
      using code by (cases code) simp_all
    finally show ?thesis .
  qed
  have t: "takeWhile (\<lambda>c. \<not> isSpace c) (code @ rest) = code"
  proof (cases rest)
    case Nil
    with code(2) show ?thesis by simp
  next
    case (Cons r rs)
    with rest have "isSpace r" by simp
    with Cons code(2) show ?thesis by (simp add: takeWhile_tail)
  qed
  show ?thesis
    using len lbl d t code(1) by (simp add: matchCodeAt_def)
qed

lemma matchCode_found:
  assumes lbl: "toLowerCase lbl = ''code:''"
    and ws: "\<forall>c\<in>set ws. isSpace c"
    and code: "code \<noteq> []" "\<forall>c\<in>set code. \<not> isSpace c"
    and rest: "rest = [] \<or> isSpace (hd rest)"
  shows "\<not> str_includes (toLowerCase (pre @ butlast lbl)) ''code:'' \<Longrightarrow>
         matchCode (pre @ lbl @ ws @ code @ rest) = Some code"
proof (induction pre)
  case Nil
  have len: "length lbl = 5"
    using arg_cong[OF lbl, of length] by simp
  then obtain l ls where "lbl = l # ls" by (cases lbl) auto
  then have "matchCode (lbl @ ws @ code @ rest) =
     (case matchCodeAt (lbl @ ws @ code @ rest) of Some c \<Rightarrow> Some c
      | None \<Rightarrow> matchCode (ls @ ws @ code @ rest))"
    by simp
  then show ?case
    using matchCodeAt_here[OF lbl ws code rest] by simp
next
  case (Cons a pre)
  have len: "length lbl = 5"
    using arg_cong[OF lbl, of length] by simp
  let ?m = "(a # pre) @ lbl @ ws @ code @ rest"
  have "matchCodeAt ?m = None"
  proof (cases "matchCodeAt ?m")
    case (Some c)
    then have "take 5 (toLowerCase ?m) = ''code:''"
      by (rule matchCodeAt_label)
    moreover have "take 5 ?m = take 5 ((a # pre) @ butlast lbl)"
      using len by (simp add: butlast_conv_take)
    ultimately have "take 5 (toLowerCase ((a # pre) @ butlast lbl)) = ''code:''"
      by (metis toLowerCase_take)
    then have "str_includes (toLowerCase ((a # pre) @ butlast lbl)) ''code:''"
      by (rule str_includes_label)
    with Cons.prems show ?thesis by simp
  qed simp
  moreover have "\<not> str_includes (toLowerCase (pre @ butlast lbl)) ''code:''"
    using Cons.prems by (auto simp: toLowerCase_def)
  ultimately show ?case using Cons.IH by simp
qed

subsection \<open>The two halves of a pass, and the loop\<close>

lemma sendCommand_frame [simp]:
  "running (sendCommand c s) = running s"
  "lastFishResponseTime (sendCommand c s) = lastFishResponseTime s"
  "cooldown (sendCommand c s) = cooldown s"
  "baitType (sendCommand c s) = baitType s"
  "now (sendCommand c s) = now s"
  "trace (sendCommand c s) = trace s @ [Command c]"
  by (simp_all add: sendCommand_def)

lemma sendCommandWithParams_frame [simp]:
  "running (sendCommandWithParams c ps s) = running s"
  "lastFishResponseTime (sendCommandWithParams c ps s) = lastFishResponseTime s"
  "cooldown (sendCommandWithParams c ps s) = cooldown s"
  "baitType (sendCommandWithParams c ps s) = baitType s"
  "now (sendCommandWithParams c ps s) = now s"
  "trace (sendCommandWithParams c ps s) = trace s @ [CommandWithParams c ps]"
  by (simp_all add: sendCommandWithParams_def)

lemma waitForCooldown_frame [simp]:
  "running (waitForCooldown p s) = running s"
  "lastFishResponseTime (waitForCooldown p s) = lastFishResponseTime s"
  "cooldown (waitForCooldown p s) = cooldown s"
  "baitType (waitForCooldown p s) = baitType s"
  by (simp_all add: waitForCooldown_def Let_def)

lemma waitForMessagesSettled_frame:
  assumes "waitForMessagesSettled p c settleMs timeoutMs s = (r, s')"
  shows "running s' = running s" "lastFishResponseTime s' = lastFishResponseTime s"
    "cooldown s' = cooldown s" "baitType s' = baitType s" "now s \<le> now s'"
    "\<exists>k. trace s' = trace s @ replicate k (Wait 100)"
  using settle_loop_frame[OF assms[unfolded waitForMessagesSettled_def]] by simp_all

lemma executeAction_known:
  "executeAction ''fish'' s = (sendCommand ''/fish'' s, Inr ())"
  "executeAction ''sell'' s = (sendCommandWithParams ''/sell'' ''all'' s, Inr ())"
  "executeAction ''buy'' s = (sendCommandWithParams ''/buy'' (baitType s @ '' 50'') s, Inr ())"
  by (simp_all add: executeAction_def)

lemma executeAction_unknown:
  "a \<notin> {''fish'', ''sell'', ''buy''} \<Longrightarrow> executeAction a s = (s, Inl (UnknownAction a))"
  by (simp add: executeAction_def)

lemma actAndSettle_fish:
  obtains s3 r where
    "waitForMessagesSettled p (getMessageCount p (waitForCooldown p s)) 300 5000
       (sendCommand ''/fish'' (waitForCooldown p s)) = (r, s3)"
    "actAndSettle p ''fish'' s = ((wait p 300 s3)\<lparr>lastFishResponseTime := now (wait p 300 s3)\<rparr>, Inr ())"
proof -
  obtain r s3 where w: "waitForMessagesSettled p (getMessageCount p (waitForCooldown p s)) 300 5000
       (sendCommand ''/fish'' (waitForCooldown p s)) = (r, s3)"
    by (cases "waitForMessagesSettled p (getMessageCount p (waitForCooldown p s)) 300 5000
       (sendCommand ''/fish'' (waitForCooldown p s))") 
  then have "actAndSettle p ''fish'' s = ((wait p 300 s3)\<lparr>lastFishResponseTime := now (wait p 300 s3)\<rparr>, Inr ())"
    by (simp add: actAndSettle_def executeAction_known Let_def)
  with w that show ?thesis by blast
qed

lemma actAndSettle_other:
  assumes "a = ''sell'' \<or> a = ''buy''"
  obtains s2 s3 r where
    "executeAction a s = (s2, Inr ())"
    "waitForMessagesSettled p (getMessageCount p s) 300 5000 s2 = (r, s3)"
    "actAndSettle p a s = (wait p 300 s3, Inr ())"
proof -
  obtain s2 where e: "executeAction a s = (s2, Inr ())"
    using assms executeAction_known by blast
  obtain r s3 where w: "waitForMessagesSettled p (getMessageCount p s) 300 5000 s2 = (r, s3)"
    by (cases "waitForMessagesSettled p (getMessageCount p s) 300 5000 s2")
  have "a \<noteq> ''fish''" using assms by auto
  then have "actAndSettle p a s = (wait p 300 s3, Inr ())"
    using e w by (simp add: actAndSettle_def Let_def)
  with e w that show ?thesis by blast
qed

lemma actAndSettle_unknown:
  "a \<notin> {''fish'', ''sell'', ''buy''} \<Longrightarrow> actAndSettle p a s = (s, Inl (UnknownAction a))"
  by (simp add: actAndSettle_def executeAction_unknown Let_def)

lemma actAndSettle_running:
  "actAndSettle p a s = (s', r) \<Longrightarrow> running s' = running s"
proof -
  assume run: "actAndSettle p a s = (s', r)"
  consider (fish) "a = ''fish''" | (other) "a = ''sell'' \<or> a = ''buy''"
    | (unknown) "a \<notin> {''fish'', ''sell'', ''buy''}" by blast
  then show ?thesis
  proof cases
    case fish
    obtain s3 r3 where
      w: "waitForMessagesSettled p (getMessageCount p (waitForCooldown p s)) 300 5000
       (sendCommand ''/fish'' (waitForCooldown p s)) = (r3, s3)"
      and a: "actAndSettle p ''fish'' s = ((wait p 300 s3)\<lparr>lastFishResponseTime := now (wait p 300 s3)\<rparr>, Inr ())"
      by (rule actAndSettle_fish)
    from waitForMessagesSettled_frame(1)[OF w] a run fish show ?thesis by auto
  next
    case other
    then obtain s2 s3 r3 where e: "executeAction a s = (s2, Inr ())"
      and w: "waitForMessagesSettled p (getMessageCount p s) 300 5000 s2 = (r3, s3)"
      and a: "actAndSettle p a s = (wait p 300 s3, Inr ())"
      by (rule actAndSettle_other)
    have "running s2 = running s" using e other by (auto simp: executeAction_known)
    with waitForMessagesSettled_frame(1)[OF w] a run show ?thesis by auto
  next
    case unknown
    with run show ?thesis by (simp add: actAndSettle_unknown)
  qed
qed

lemma actAndSettle_error:
  "actAndSettle p a s = (s', Inl e) \<Longrightarrow> a \<notin> {''fish'', ''sell'', ''buy''} \<and> e = UnknownAction a"
proof -
  assume run: "actAndSettle p a s = (s', Inl e)"
  consider (fish) "a = ''fish''" | (other) "a = ''sell'' \<or> a = ''buy''"
    | (unknown) "a \<notin> {''fish'', ''sell'', ''buy''}" by blast
  then show ?thesis
  proof cases
    case fish
    with run show ?thesis by (metis actAndSettle_fish Pair_inject sum.distinct(1))
  next
    case other
    with run show ?thesis by (metis actAndSettle_other Pair_inject sum.distinct(1))
  next
    case unknown
    with run show ?thesis by (simp add: actAndSettle_unknown)
  qed
qed

lemma nextActionOf_known: "nextActionOf m \<in> {''fish'', ''sell'', ''buy''}"
  by (simp add: nextActionOf_def Let_def)

lemma handleCaptcha_cases:
  "handleCaptcha p (TextCaptcha code m) s =
     (wait p 1000 (sendCommandWithParams ''/verify'' code s), Inr ())"
  "handleCaptcha p (ImageCaptchaFound m) s = (s, Inl ImageCaptcha)"
  by (simp_all add: handleCaptcha_def)

lemma detectAndDecide_frame:
  assumes "detectAndDecide p s = (s', r)"
  shows "running s' = running s" "lastFishResponseTime s' = lastFishResponseTime s"
    "case r of Inl e \<Rightarrow> e = ImageCaptcha \<and> s' = s \<and> (\<exists>m. detectCaptcha p s = Some (ImageCaptchaFound m))
       | Inr a \<Rightarrow> a \<in> {''fish'', ''sell'', ''buy''}"
proof -
  have "running s' = running s \<and> lastFishResponseTime s' = lastFishResponseTime s \<and>
    (case r of Inl e \<Rightarrow> e = ImageCaptcha \<and> s' = s \<and> (\<exists>m. detectCaptcha p s = Some (ImageCaptchaFound m))
       | Inr a \<Rightarrow> a \<in> {''fish'', ''sell'', ''buy''})"
  proof (cases "detectCaptcha p s")
    case None
    then obtain a where d: "determineNextAction p s = (a, s')" and r: "r = Inr a"
      using assms by (auto simp: detectAndDecide_def split: prod.splits)
    from determineNextAction_frame[OF d] r
      nextActionOf_known[of "mostRecentEntry p (now s')"] show ?thesis
      by simp
  next
    case (Some c)
    show ?thesis
    proof (cases c)
      case (TextCaptcha code m)
      let ?s1 = "wait p 1000 (sendCommandWithParams ''/verify'' code s)"
      obtain a where d: "determineNextAction p ?s1 = (a, s')" and r: "r = Inr a"
        using assms Some TextCaptcha
        by (auto simp: detectAndDecide_def handleCaptcha_cases split: prod.splits)
      from determineNextAction_frame[OF d] r
        nextActionOf_known[of "mostRecentEntry p (now s')"] show ?thesis
        by simp
    next
      case (ImageCaptchaFound m)
      then show ?thesis
        using assms Some by (auto simp: detectAndDecide_def handleCaptcha_cases)
    qed
  qed
  then show "running s' = running s" "lastFishResponseTime s' = lastFishResponseTime s"
    "case r of Inl e \<Rightarrow> e = ImageCaptcha \<and> s' = s \<and> (\<exists>m. detectCaptcha p s = Some (ImageCaptchaFound m))
       | Inr a \<Rightarrow> a \<in> {''fish'', ''sell'', ''buy''}"
    by simp_all
qed

lemma cycle_next_known:
  assumes "cycle p a s = (s', Inr a')"
  shows "a' \<in> {''fish'', ''sell'', ''buy''}"
proof -
  obtain s1 where "detectAndDecide p s1 = (s', Inr a')"
    using assms by (auto simp: cycle_def split: prod.splits sum.splits)
  from detectAndDecide_frame(3)[OF this] show ?thesis by simp
qed

lemma cycle_error:
  assumes "cycle p a s = (s', Inl e)" "a \<in> {''fish'', ''sell'', ''buy''}"
  shows "e = ImageCaptcha"
proof (cases "actAndSettle p a s")
  case (Pair s1 r)
  show ?thesis
  proof (cases r)
    case (Inl e1)
    with Pair actAndSettle_error assms(2) show ?thesis by blast
  next
    case (Inr u)
    with Pair assms(1) have "detectAndDecide p s1 = (s', Inl e)"
      by (simp add: cycle_def)
    from detectAndDecide_frame(3)[OF this] show ?thesis by simp
  qed
qed

lemma start_loop_known:
  "a \<in> {''fish'', ''sell'', ''buy''} \<Longrightarrow> snd (start_loop n p a s) \<noteq> Some (Inl (UnknownAction x))"
proof (induction n arbitrary: a s)
  case 0
  then show ?case by simp
next
  case (Suc n)
  show ?case
  proof (cases "running s")
    case False
    then show ?thesis by simp
  next
    case True
    obtain s' r where c: "cycle p a s = (s', r)" by (cases "cycle p a s")
    show ?thesis
    proof (cases r)
      case (Inl e)
      with c cycle_error[OF _ Suc.prems] have "e = ImageCaptcha" by blast
      with True c Inl show ?thesis by simp
    next
      case (Inr a')
      with c have "a' \<in> {''fish'', ''sell'', ''buy''}" using cycle_next_known by blast
      from Suc.IH[OF this] True c Inr show ?thesis by simp
    qed
  qed
qed

subsection \<open>The events of a pass, empty timelines, pages alike in their last entry\<close>

lemma detectAndDecide_trace:
  assumes "detectAndDecide p s = (s', r)"
  shows "\<exists>ws. trace s' = trace s @ ws"
proof (cases "detectCaptcha p s")
  case None
  then obtain a where d: "determineNextAction p s = (a, s')"
    using assms by (auto simp: detectAndDecide_def split: prod.splits)
  from determineNextAction_frame(6)[OF d] show ?thesis by blast
next
  case (Some c)
  show ?thesis
  proof (cases c)
    case (TextCaptcha code m)
    let ?s1 = "wait p 1000 (sendCommandWithParams ''/verify'' code s)"
    obtain a where d: "determineNextAction p ?s1 = (a, s')"
      using assms Some TextCaptcha
      by (auto simp: detectAndDecide_def handleCaptcha_cases split: prod.splits)
    from determineNextAction_frame(6)[OF d] obtain k where
      "trace s' = trace ?s1 @ replicate k (Wait 100)" by blast
    then have "trace s' = trace s @
      (CommandWithParams ''/verify'' code # Wait 1000 # replicate k (Wait 100))" by simp
    then show ?thesis by blast
  next
    case (ImageCaptchaFound m)
    then have "s' = s"
      using assms Some by (auto simp: detectAndDecide_def handleCaptcha_cases)
    then show ?thesis by simp
  qed
qed

lemma cycle_trace_fish:
  "\<exists>rest. trace (fst (cycle p ''fish'' s)) = trace (waitForCooldown p s) @ Command ''/fish'' # rest"
proof -
  obtain s3 r3 where
    w: "waitForMessagesSettled p (getMessageCount p (waitForCooldown p s)) 300 5000
       (sendCommand ''/fish'' (waitForCooldown p s)) = (r3, s3)"
    and a: "actAndSettle p ''fish'' s =
       ((wait p 300 s3)\<lparr>lastFishResponseTime := now (wait p 300 s3)\<rparr>, Inr ())"
    by (rule actAndSettle_fish)
  let ?s5 = "(wait p 300 s3)\<lparr>lastFishResponseTime := now (wait p 300 s3)\<rparr>"
  from waitForMessagesSettled_frame(6)[OF w] obtain k where
    "trace s3 = trace (waitForCooldown p s) @ Command ''/fish'' # replicate k (Wait 100)"
    by auto
  then have t5: "trace ?s5 =
    trace (waitForCooldown p s) @ Command ''/fish'' # (replicate k (Wait 100) @ [Wait 300])"
    by simp
  obtain s' r where d: "detectAndDecide p ?s5 = (s', r)" by (cases "detectAndDecide p ?s5")
  from detectAndDecide_trace[OF d] obtain ws where "trace s' = trace ?s5 @ ws" by blast
  with t5 have "trace s' =
    trace (waitForCooldown p s) @ Command ''/fish'' # (replicate k (Wait 100) @ [Wait 300] @ ws)"
    by simp
  moreover have "cycle p ''fish'' s = (s', r)" using a d by (simp add: cycle_def)
  ultimately show ?thesis by auto
qed

lemma cycle_trace_other:
  assumes "a = ''sell'' \<or> a = ''buy''"
  shows "\<exists>rest. trace (fst (cycle p a s)) = trace (fst (executeAction a s)) @ rest"
proof -
  from assms obtain s2 s3 r3 where e: "executeAction a s = (s2, Inr ())"
    and w: "waitForMessagesSettled p (getMessageCount p s) 300 5000 s2 = (r3, s3)"
    and a: "actAndSettle p a s = (wait p 300 s3, Inr ())"
    by (rule actAndSettle_other)
  from waitForMessagesSettled_frame(6)[OF w] obtain k where
    "trace s3 = trace s2 @ replicate k (Wait 100)" by auto
  then have t4: "trace (wait p 300 s3) = trace s2 @ (replicate k (Wait 100) @ [Wait 300])"
    by simp
  obtain s' r where d: "detectAndDecide p (wait p 300 s3) = (s', r)"
    by (cases "detectAndDecide p (wait p 300 s3)")
  from detectAndDecide_trace[OF d] obtain ws where "trace s' = trace (wait p 300 s3) @ ws"
    by blast
  with t4 have "trace s' = trace s2 @ (replicate k (Wait 100) @ [Wait 300] @ ws)" by simp
  moreover have "cycle p a s = (s', r)" using a d by (simp add: cycle_def)
  ultimately show ?thesis using e by auto
qed

lemma find_marker_None:
  "\<forall>m\<in>set msgs. \<not> P m \<Longrightarrow> find P msgs = None"
  by (simp add: find_None_iff)

lemma mostRecentEntry_empty:
  "\<forall>e\<in>set (timeline p t). textContent e = [] \<Longrightarrow> mostRecentEntry p t = []"
  by (cases "timeline p t" rule: rev_cases) (simp_all add: mostRecentEntry_def)

lemma nextActionOf_empty: "nextActionOf [] = ''fish''"
  by (simp add: nextActionOf_def toLowerCase_def)

lemma getLastMessage_loop_cong:
  "overshoot p' = overshoot p \<Longrightarrow> \<forall>t. mostRecentEntry p' t = mostRecentEntry p t \<Longrightarrow>
   getLastMessage_loop p' st s = getLastMessage_loop p st s"
proof (induction p st s rule: getLastMessage_loop.induct)
  case (1 p startTime s)
  have w: "wait p' 100 s = wait p 100 s" using "1.prems"(1) by (simp add: wait_def)
  have m: "firstOrEmpty (getLastMessages p' (Suc 0) s) =
           firstOrEmpty (getLastMessages p (Suc 0) s)"
    using "1.prems"(2) by (simp add: firstOrEmpty_getLastMessages)
  show ?case
  proof (cases "now s - startTime < 3000 \<and>
      \<not> (isVirtualFisherResponse (firstOrEmpty (getLastMessages p 1 s)) \<and>
         length (firstOrEmpty (getLastMessages p 1 s)) > 10)")
    case True
    with "1.IH"[OF _ refl _ "1.prems"] 
    have "getLastMessage_loop p' startTime (wait p 100 s) =
          getLastMessage_loop p startTime (wait p 100 s)" by blast
    then show ?thesis
      by (subst getLastMessage_loop.simps, subst (2) getLastMessage_loop.simps)
         (simp add: w m Let_def)
  next
    case False
    then show ?thesis
      by (subst getLastMessage_loop.simps, subst (2) getLastMessage_loop.simps)
         (auto simp add: w m Let_def)
  qed
qed

section \<open>The properties\<close>

text \<open>
  Claim C1. Whatever the page shows, \<open>determineNextAction\<close> returns (it is a total
  function with no error among its results), and its answer is the priority list applied
  to the lower-cased text of the most recent entry at the moment it returns: the
  depletion phrase gives \<open>sell\<close>; otherwise the liquidation confirmation gives \<open>buy\<close>;
  otherwise either form of the replenishment confirmation gives \<open>fish\<close>; otherwise the
  answer is \<open>fish\<close>. Only the most recent entry enters, so that the depletion phrase
  wins whatever the earlier entries are.
\<close>

theorem C1_classification:
  assumes "determineNextAction p s = (a, s')"
  shows "let msg = toLowerCase (mostRecentEntry p (now s'))
         in (str_includes msg ''you ran out of'' \<longrightarrow> a = ''sell'') \<and>
            (\<not> str_includes msg ''you ran out of'' \<and> str_includes msg ''you sold''
               \<longrightarrow> a = ''buy'') \<and>
            (\<not> str_includes msg ''you ran out of'' \<and> \<not> str_includes msg ''you sold'' \<and>
             (str_includes msg ''you bought'' \<or> str_includes msg ''bait purchase'')
               \<longrightarrow> a = ''fish'') \<and>
            (\<not> str_includes msg ''you ran out of'' \<and> \<not> str_includes msg ''you sold'' \<and>
             \<not> str_includes msg ''you bought'' \<and> \<not> str_includes msg ''bait purchase''
               \<longrightarrow> a = ''fish'')"
  using determineNextAction_frame(7)[OF assms]
  by (simp add: nextActionOf_def Let_def)

theorem C1_classification_witness:
  "fst (determineNextAction
          (steadyPage [Some ''You sold all your items'', Some ''You ran out of worms''])
          (newFisher (7 / 2) ''worms'' 1000)) = ''sell'' \<and>
   fst (determineNextAction
          (steadyPage [Some ''You ran out of worms'', Some ''You sold all your items''])
          (newFisher (7 / 2) ''worms'' 1000)) = ''buy'' \<and>
   fst (determineNextAction
          (steadyPage [Some ''You ran out of worms'', Some ''Bait purchase: 50 worms''])
          (newFisher (7 / 2) ''worms'' 1000)) = ''fish'' \<and>
   fst (determineNextAction
          (steadyPage [Some ''You ran out of worms'', Some ''hello there''])
          (newFisher (7 / 2) ''worms'' 1000)) = ''fish''"
proof -
  let ?S = "newFisher (7 / 2) ''worms'' 1000"
  let ?A = "steadyPage [Some ''You sold all your items'', Some ''You ran out of worms'']"
  let ?B = "steadyPage [Some ''You ran out of worms'', Some ''You sold all your items'']"
  let ?C = "steadyPage [Some ''You ran out of worms'', Some ''Bait purchase: 50 worms'']"
  let ?D = "steadyPage [Some ''You ran out of worms'', Some ''hello there'']"
  have run: "determineNextAction q ?S = (fst (determineNextAction q ?S), snd (determineNextAction q ?S))"
    for q by simp
  have a: "str_includes (toLowerCase (mostRecentEntry ?A (now (snd (determineNextAction ?A ?S)))))
             ''you ran out of''"
    by code_simp
  have b: "\<not> str_includes (toLowerCase (mostRecentEntry ?B (now (snd (determineNextAction ?B ?S)))))
               ''you ran out of'' \<and>
           str_includes (toLowerCase (mostRecentEntry ?B (now (snd (determineNextAction ?B ?S)))))
             ''you sold''"
    by code_simp
  have c: "\<not> str_includes (toLowerCase (mostRecentEntry ?C (now (snd (determineNextAction ?C ?S)))))
               ''you ran out of'' \<and>
           \<not> str_includes (toLowerCase (mostRecentEntry ?C (now (snd (determineNextAction ?C ?S)))))
               ''you sold'' \<and>
           str_includes (toLowerCase (mostRecentEntry ?C (now (snd (determineNextAction ?C ?S)))))
             ''bait purchase''"
    by code_simp
  have d: "\<not> str_includes (toLowerCase (mostRecentEntry ?D (now (snd (determineNextAction ?D ?S)))))
               ''you ran out of'' \<and>
           \<not> str_includes (toLowerCase (mostRecentEntry ?D (now (snd (determineNextAction ?D ?S)))))
               ''you sold'' \<and>
           \<not> str_includes (toLowerCase (mostRecentEntry ?D (now (snd (determineNextAction ?D ?S)))))
               ''you bought'' \<and>
           \<not> str_includes (toLowerCase (mostRecentEntry ?D (now (snd (determineNextAction ?D ?S)))))
               ''bait purchase''"
    by code_simp
  from C1_classification[OF run[of ?A]] a
  have 1: "fst (determineNextAction ?A ?S) = ''sell''" by (simp add: Let_def)
  from C1_classification[OF run[of ?B]] b
  have 2: "fst (determineNextAction ?B ?S) = ''buy''" by (simp add: Let_def)
  from C1_classification[OF run[of ?C]] c
  have 3: "fst (determineNextAction ?C ?S) = ''fish''" by (simp add: Let_def)
  from C1_classification[OF run[of ?D]] d
  have 4: "fst (determineNextAction ?D ?S) = ''fish''" by (simp add: Let_def)
  from 1 2 3 4 show ?thesis by simp
qed

text \<open>
  Claim C2, as amended. When the captcha check of a pass of the running loop finds a
  marker entry with no code to extract, \<open>start\<close> ends with the image-captcha error,
  whatever fuel is left for further passes (nothing is tried again): the final state is
  the very state in which the captcha was detected, so that no command is typed after
  the detection, and its \<open>running\<close> flag is still set, since only \<open>stop\<close> clears it.
\<close>

theorem C2_image_captcha_fatal:
  assumes "running s"
    and "actAndSettle p a s = (s1, Inr ())"
    and "detectCaptcha p s1 = Some (ImageCaptchaFound m)"
  shows "start_loop (Suc n) p a s = (s1, Some (Inl ImageCaptcha)) \<and> running s1"
proof -
  have "detectAndDecide p s1 = (s1, Inl ImageCaptcha)"
    using assms(3) by (simp add: detectAndDecide_def handleCaptcha_cases)
  with assms(2) have "cycle p a s = (s1, Inl ImageCaptcha)" by (simp add: cycle_def)
  moreover have "running s1" using actAndSettle_running[OF assms(2)] assms(1) by simp
  ultimately show ?thesis using assms(1) by simp
qed

theorem C2_image_captcha_fatal_witness:
  "start_loop (Suc 4) (steadyPage [Some ''Anti-bot check: look at the image'']) ''fish''
     ((newFisher (7 / 2) ''worms'' 1000)\<lparr>running := True\<rparr>) =
   ((newFisher (7 / 2) ''worms'' 1000)
      \<lparr>running := True, lastFishResponseTime := 1600, now := 1600,
       trace := [Command ''/fish'', Wait 100, Wait 100, Wait 100, Wait 300]\<rparr>,
    Some (Inl ImageCaptcha)) \<and>
   running ((newFisher (7 / 2) ''worms'' 1000)
      \<lparr>running := True, lastFishResponseTime := 1600, now := 1600,
       trace := [Command ''/fish'', Wait 100, Wait 100, Wait 100, Wait 300]\<rparr>)"
proof -
  let ?P = "steadyPage [Some ''Anti-bot check: look at the image'']"
  let ?S = "(newFisher (7 / 2) ''worms'' 1000)\<lparr>running := True\<rparr>"
  let ?S1 = "(newFisher (7 / 2) ''worms'' 1000)
      \<lparr>running := True, lastFishResponseTime := 1600, now := 1600,
       trace := [Command ''/fish'', Wait 100, Wait 100, Wait 100, Wait 300]\<rparr>"
  have r: "running ?S" by simp
  have a: "actAndSettle ?P ''fish'' ?S = (?S1, Inr ())" by code_simp
  have d: "detectCaptcha ?P ?S1 = Some (ImageCaptchaFound ''Anti-bot check: look at the image'')"
    by code_simp
  from C2_image_captcha_fatal[OF r a d, of 4] show ?thesis .
qed

text \<open>
  The claim C2 as it was stated fails in its \<open>running\<close> flag: after one pass on a
  page whose only entry is a captcha with no code, \<open>start\<close> has thrown the
  image-captcha error and \<open>running\<close> is still set.
\<close>

theorem C2_running_flag_counterexample:
  "detectCaptcha (steadyPage [Some ''Anti-bot check: look at the image''])
     (fst (start 1 (steadyPage [Some ''Anti-bot check: look at the image''])
             (newFisher (7 / 2) ''worms'' 1000))) =
     Some (ImageCaptchaFound ''Anti-bot check: look at the image'') \<and>
   snd (start 1 (steadyPage [Some ''Anti-bot check: look at the image''])
          (newFisher (7 / 2) ''worms'' 1000)) = Some (Inl ImageCaptcha) \<and>
   running (fst (start 1 (steadyPage [Some ''Anti-bot check: look at the image''])
                   (newFisher (7 / 2) ''worms'' 1000)))"
  by code_simp

text \<open>
  Claim C3. Let \<open>msgs\<close> be the texts of the two most recent entries (fewer when the
  timeline is shorter). When none of them contains the marker \<open>anti-bot\<close>, in any
  case of letters, detection finds nothing. Otherwise let \<open>m\<close> be the first of them
  that does. When \<open>m\<close> reads \<open>pre @ lbl @ ws @ code @ rest\<close>, where \<open>lbl\<close> is the first
  occurrence of the label \<open>Code:\<close> in any case of letters, \<open>ws\<close> is white space and
  \<open>code\<close> is a non-empty run free of white space that ends at the end of the text or
  at white space, detection returns a text captcha with the answer \<open>code\<close>. When \<open>m\<close>
  has no such label at all, detection returns an image captcha.
\<close>

theorem C3_challenge_detection:
  assumes "msgs = map textContent (drop (entryCount p (now s) - 2) (timeline p (now s)))"
  shows "((\<forall>m\<in>set msgs. \<not> str_includes (toLowerCase m) ''anti-bot'') \<longrightarrow>
            detectCaptcha p s = None) \<and>
         (find (\<lambda>m. str_includes (toLowerCase m) ''anti-bot'') msgs = Some m \<and>
          m = pre @ lbl @ ws @ code @ rest \<and> toLowerCase lbl = ''code:'' \<and>
          \<not> str_includes (toLowerCase (pre @ butlast lbl)) ''code:'' \<and>
          (\<forall>c\<in>set ws. isSpace c) \<and> code \<noteq> [] \<and> (\<forall>c\<in>set code. \<not> isSpace c) \<and>
          (rest = [] \<or> isSpace (hd rest)) \<longrightarrow>
            detectCaptcha p s = Some (TextCaptcha code m)) \<and>
         (find (\<lambda>m. str_includes (toLowerCase m) ''anti-bot'') msgs = Some m \<and>
          \<not> str_includes (toLowerCase m) ''code:'' \<longrightarrow>
            detectCaptcha p s = Some (ImageCaptchaFound m))"
proof -
  have g: "getLastMessages p 2 s = msgs"
    using assms by (simp add: getLastMessages_drop entryCount_def)
  show ?thesis
  proof (intro conjI impI)
    assume "\<forall>m\<in>set msgs. \<not> str_includes (toLowerCase m) ''anti-bot''"
    then have "find (\<lambda>m. str_includes (toLowerCase m) ''anti-bot'') msgs = None"
      by (rule find_marker_None)
    then show "detectCaptcha p s = None" using g by (simp add: detectCaptcha_def)
  next
    assume h: "find (\<lambda>m. str_includes (toLowerCase m) ''anti-bot'') msgs = Some m \<and>
          m = pre @ lbl @ ws @ code @ rest \<and> toLowerCase lbl = ''code:'' \<and>
          \<not> str_includes (toLowerCase (pre @ butlast lbl)) ''code:'' \<and>
          (\<forall>c\<in>set ws. isSpace c) \<and> code \<noteq> [] \<and> (\<forall>c\<in>set code. \<not> isSpace c) \<and>
          (rest = [] \<or> isSpace (hd rest))"
    then have "matchCode (pre @ lbl @ ws @ code @ rest) = Some code"
      by (intro matchCode_found) blast+
    with h have "matchCode m = Some code" by simp
    with h g show "detectCaptcha p s = Some (TextCaptcha code m)"
      by (simp add: detectCaptcha_def)
  next
    assume h: "find (\<lambda>m. str_includes (toLowerCase m) ''anti-bot'') msgs = Some m \<and>
          \<not> str_includes (toLowerCase m) ''code:''"
    then have "matchCode m = None" by (intro matchCode_no_label) blast
    with h g show "detectCaptcha p s = Some (ImageCaptchaFound m)"
      by (simp add: detectCaptcha_def)
  qed
qed

theorem C3_challenge_detection_witness:
  "detectCaptcha
     (steadyPage [Some ''hello'', Some ''Anti-bot verification! Code: AB12'', Some ''You caught a cod''])
     (newFisher (7 / 2) ''worms'' 1000) =
     Some (TextCaptcha ''AB12'' ''Anti-bot verification! Code: AB12'') \<and>
   detectCaptcha (steadyPage [Some ''Anti-bot check: look at the image''])
     (newFisher (7 / 2) ''worms'' 1000) =
     Some (ImageCaptchaFound ''Anti-bot check: look at the image'') \<and>
   detectCaptcha (steadyPage [Some ''Anti-bot is watching'', Some ''hello'', Some ''You caught a cod''])
     (newFisher (7 / 2) ''worms'' 1000) = None"
proof -
  let ?S = "newFisher (7 / 2) ''worms'' 1000"
  let ?P = "steadyPage [Some ''hello'', Some ''Anti-bot verification! Code: AB12'', Some ''You caught a cod'']"
  let ?Q = "steadyPage [Some ''Anti-bot check: look at the image'']"
  let ?R = "steadyPage [Some ''Anti-bot is watching'', Some ''hello'', Some ''You caught a cod'']"
  let ?marker = "\<lambda>m. str_includes (toLowerCase m) ''anti-bot''"
  have p: "[''Anti-bot verification! Code: AB12'', ''You caught a cod''] =
           map textContent (drop (entryCount ?P (now ?S) - 2) (timeline ?P (now ?S)))"
    by code_simp
  have q: "[''Anti-bot check: look at the image''] =
           map textContent (drop (entryCount ?Q (now ?S) - 2) (timeline ?Q (now ?S)))"
    by code_simp
  have r: "[''hello'', ''You caught a cod''] =
           map textContent (drop (entryCount ?R (now ?S) - 2) (timeline ?R (now ?S)))"
    by code_simp
  have tx: "find ?marker [''Anti-bot verification! Code: AB12'', ''You caught a cod''] =
        Some ''Anti-bot verification! Code: AB12'' \<and>
      ''Anti-bot verification! Code: AB12'' =
        ''Anti-bot verification! '' @ ''Code:'' @ '' '' @ ''AB12'' @ [] \<and>
      toLowerCase ''Code:'' = ''code:'' \<and>
      \<not> str_includes (toLowerCase (''Anti-bot verification! '' @ butlast ''Code:'')) ''code:'' \<and>
      (\<forall>c\<in>set '' ''. isSpace c) \<and> ''AB12'' \<noteq> [] \<and> (\<forall>c\<in>set ''AB12''. \<not> isSpace c) \<and>
      ([] = ([]::string) \<or> isSpace (hd []))"
    by code_simp
  have im: "find ?marker [''Anti-bot check: look at the image''] =
        Some ''Anti-bot check: look at the image'' \<and>
      \<not> str_includes (toLowerCase ''Anti-bot check: look at the image'') ''code:''"
    by code_simp
  have no: "\<forall>m\<in>set [''hello'', ''You caught a cod'']. \<not> ?marker m"
    by code_simp
  from C3_challenge_detection[OF p, of "''Anti-bot verification! Code: AB12''"
      "''Anti-bot verification! ''" "''Code:''" "'' ''" "''AB12''" "[]"] tx
  have a: "detectCaptcha ?P ?S = Some (TextCaptcha ''AB12'' ''Anti-bot verification! Code: AB12'')"
    by blast
  from C3_challenge_detection[OF q, of "''Anti-bot check: look at the image''"] im
  have b: "detectCaptcha ?Q ?S = Some (ImageCaptchaFound ''Anti-bot check: look at the image'')"
    by blast
  from C3_challenge_detection[OF r] no
  have c: "detectCaptcha ?R ?S = None"
    by blast
  from a b c show ?thesis by simp
qed

text \<open>
  Claim C4. Let the number of entries never decrease, and let \<open>previousCount\<close> be at
  most the number of entries at the call. Then \<open>waitForMessagesSettled\<close> returns in one
  of two ways, neither of them an error. Through its \<open>return\<close>, and then there is a
  moment \<open>t0\<close> not before the call and at least \<open>settleMs\<close> before the return from which
  on the number of entries has not changed. Or at the end of its loop, and then at least
  \<open>timeoutMs\<close> have passed since the call.
\<close>

theorem C4_settle_or_timeout:
  assumes mono: "\<forall>t t'. t \<le> t' \<longrightarrow> entryCount p t \<le> entryCount p t'"
    and prev: "previousCount \<le> entryCount p (now s)"
    and run: "waitForMessagesSettled p previousCount settleMs timeoutMs s = (r, s')"
  shows "(r = Settled \<and>
          (\<exists>t0. now s \<le> t0 \<and> t0 + settleMs \<le> now s' \<and>
                (\<forall>t. t0 \<le> t \<and> t \<le> now s' \<longrightarrow> entryCount p t = entryCount p t0))) \<or>
         (r = TimedOut \<and> timeoutMs \<le> now s' - now s)"
proof -
  from settle_loop_exit[OF run[unfolded waitForMessagesSettled_def] mono _ _ prev]
  consider (a) t0 where "r = Settled" "now s \<le> t0" "t0 \<le> now s'" "t0 + settleMs \<le> now s'"
      "entryCount p (now s') = entryCount p t0"
    | (b) "r = TimedOut" "timeoutMs \<le> now s' - now s"
    by auto
  then show ?thesis
  proof cases
    case a
    have "entryCount p t = entryCount p t0" if "t0 \<le> t \<and> t \<le> now s'" for t
    proof -
      have "entryCount p t0 \<le> entryCount p t" "entryCount p t \<le> entryCount p (now s')"
        using mono that by blast+
      with a(5) show ?thesis by linarith
    qed
    with a show ?thesis by blast
  next
    case b
    then show ?thesis by blast
  qed
qed

theorem C4_settle_or_timeout_witness:
  "waitForMessagesSettled
     (arrivalPage [Some ''earlier entry''] 1050 [Some ''You caught a cod!'']) 1 300 5000
     (newFisher (7 / 2) ''worms'' 1000) =
   (Settled, (newFisher (7 / 2) ''worms'' 1000)
               \<lparr>now := 1400, trace := [Wait 100, Wait 100, Wait 100, Wait 100]\<rparr>) \<and>
   (\<exists>t0. 1000 \<le> t0 \<and> t0 + 300 \<le> 1400 \<and>
      (\<forall>t. t0 \<le> t \<and> t \<le> 1400 \<longrightarrow>
         entryCount (arrivalPage [Some ''earlier entry''] 1050 [Some ''You caught a cod!'']) t =
         entryCount (arrivalPage [Some ''earlier entry''] 1050 [Some ''You caught a cod!'']) t0)) \<and>
   waitForMessagesSettled growingPage 10 300 500 (newFisher (7 / 2) ''worms'' 1000) =
   (TimedOut, (newFisher (7 / 2) ''worms'' 1000)
               \<lparr>now := 1500, trace := [Wait 100, Wait 100, Wait 100, Wait 100, Wait 100]\<rparr>) \<and>
   (500::int) \<le> 1500 - 1000"
proof -
  let ?P = "arrivalPage [Some ''earlier entry''] 1050 [Some ''You caught a cod!'']"
  let ?S = "newFisher (7 / 2) ''worms'' 1000"
  let ?S1 = "?S\<lparr>now := 1400, trace := [Wait 100, Wait 100, Wait 100, Wait 100]\<rparr>"
  let ?S2 = "?S\<lparr>now := 1500, trace := [Wait 100, Wait 100, Wait 100, Wait 100, Wait 100]\<rparr>"
  have mono1: "\<forall>t t'. t \<le> t' \<longrightarrow> entryCount ?P t \<le> entryCount ?P t'"
    by (simp add: entryCount_def arrivalPage_def)
  have prev1: "1 \<le> entryCount ?P (now ?S)"
    by (simp add: entryCount_def arrivalPage_def newFisher_def)
  have run1: "waitForMessagesSettled ?P 1 300 5000 ?S = (Settled, ?S1)"
    by code_simp
  have mono2: "\<forall>t t'. t \<le> t' \<longrightarrow> entryCount growingPage t \<le> entryCount growingPage t'"
    by (simp add: entryCount_def growingPage_def nat_mono zdiv_mono1)
  have prev2: "10 \<le> entryCount growingPage (now ?S)"
    by (simp add: entryCount_def growingPage_def newFisher_def)
  have run2: "waitForMessagesSettled growingPage 10 300 500 ?S = (TimedOut, ?S2)"
    by code_simp
  have n: "now ?S = 1000" "now ?S1 = 1400" "now ?S2 = 1500"
    by (simp_all add: newFisher_def)
  from C4_settle_or_timeout[OF mono1 prev1 run1] C4_settle_or_timeout[OF mono2 prev2 run2]
    run1 run2 n
  show ?thesis by simp
qed

text \<open>
  Claim C5, as amended. \<open>waitForCooldown\<close> does nothing while \<open>lastFishResponseTime\<close>
  is 0. Otherwise let \<open>remaining\<close> be \<open>cooldown * 1000 - (now - lastFishResponseTime)\<close>
  as the source computes it on numbers. When it is positive, the gate is one suspension,
  asked for \<open>(remaining / 1000) * 1000\<close> milliseconds as computed on numbers: this is
  within \<open>remaining / 2 ^ 51\<close> of \<open>remaining\<close>, and the clock then stands at least the
  whole milliseconds of it later. A pass for \<open>fish\<close> begins with this gate and types
  \<open>/fish\<close> next; a pass for \<open>sell\<close> or \<open>buy\<close> types its command first, with no
  suspension before it.
\<close>

theorem C5_cooldown_gate:
  "(lastFishResponseTime s = 0 \<longrightarrow> waitForCooldown p s = s) \<and>
   (let remaining = fsub (fmul (cooldown s) 1000) (of_int (now s - lastFishResponseTime s));
        ms = fmul (fdiv remaining 1000) 1000
    in lastFishResponseTime s \<noteq> 0 \<and> 0 < remaining \<longrightarrow>
         waitForCooldown p s = wait p ms s \<and>
         trace (waitForCooldown p s) = trace s @ [Wait ms] \<and>
         \<bar>ms - remaining\<bar> \<le> remaining / 2 ^ 51 \<and>
         now (waitForCooldown p s) = now s + \<lfloor>ms\<rfloor> + int (overshoot p (now s))) \<and>
   (\<exists>rest. trace (fst (cycle p ''fish'' s)) =
      trace (waitForCooldown p s) @ Command ''/fish'' # rest) \<and>
   (\<exists>rest. trace (fst (cycle p ''sell'' s)) =
      trace s @ CommandWithParams ''/sell'' ''all'' # rest) \<and>
   (\<exists>rest. trace (fst (cycle p ''buy'' s)) =
      trace s @ CommandWithParams ''/buy'' (baitType s @ '' 50'') # rest)"
proof (intro conjI)
  show "lastFishResponseTime s = 0 \<longrightarrow> waitForCooldown p s = s"
    by (simp add: waitForCooldown_def)
  show "let remaining = fsub (fmul (cooldown s) 1000) (of_int (now s - lastFishResponseTime s));
            ms = fmul (fdiv remaining 1000) 1000
        in lastFishResponseTime s \<noteq> 0 \<and> 0 < remaining \<longrightarrow>
             waitForCooldown p s = wait p ms s \<and>
             trace (waitForCooldown p s) = trace s @ [Wait ms] \<and>
             \<bar>ms - remaining\<bar> \<le> remaining / 2 ^ 51 \<and>
             now (waitForCooldown p s) = now s + \<lfloor>ms\<rfloor> + int (overshoot p (now s))"
  proof -
    define remaining where
      "remaining = fsub (fmul (cooldown s) 1000) (of_int (now s - lastFishResponseTime s))"
    define ms where "ms = fmul (fdiv remaining 1000) 1000"
    have "waitForCooldown p s = wait p ms s \<and>
          trace (waitForCooldown p s) = trace s @ [Wait ms] \<and>
          \<bar>ms - remaining\<bar> \<le> remaining / 2 ^ 51 \<and>
          now (waitForCooldown p s) = now s + \<lfloor>ms\<rfloor> + int (overshoot p (now s))"
      if h: "lastFishResponseTime s \<noteq> 0 \<and> 0 < remaining"
    proof -
      have w: "waitForCooldown p s = wait p ms s"
        using h by (simp add: waitForCooldown_def Let_def remaining_def ms_def)
      have "\<bar>ms - remaining\<bar> \<le> remaining / 2 ^ 51"
        unfolding ms_def using h by (intro seconds_round_trip) simp
      with w show ?thesis by simp
    qed
    then show ?thesis by (simp add: Let_def remaining_def ms_def)
  qed
  show "\<exists>rest. trace (fst (cycle p ''fish'' s)) =
      trace (waitForCooldown p s) @ Command ''/fish'' # rest"
    by (rule cycle_trace_fish)
  show "\<exists>rest. trace (fst (cycle p ''sell'' s)) =
      trace s @ CommandWithParams ''/sell'' ''all'' # rest"
    using cycle_trace_other[of "''sell''" p s] by (simp add: executeAction_known)
  show "\<exists>rest. trace (fst (cycle p ''buy'' s)) =
      trace s @ CommandWithParams ''/buy'' (baitType s @ '' 50'') # rest"
    using cycle_trace_other[of "''buy''" p s] by (simp add: executeAction_known)
qed

theorem C5_cooldown_gate_witness:
  "waitForCooldown (steadyPage []) (newFisher (roundDouble (27 / 10)) ''worms'' 5000) =
     newFisher (roundDouble (27 / 10)) ''worms'' 5000 \<and>
   trace (waitForCooldown (steadyPage [])
            ((newFisher (roundDouble (27 / 10)) ''worms'' 5000)
               \<lparr>lastFishResponseTime := 4000\<rparr>)) = [Wait 1700] \<and>
   now (waitForCooldown (steadyPage [])
          ((newFisher (roundDouble (27 / 10)) ''worms'' 5000)
             \<lparr>lastFishResponseTime := 4000\<rparr>)) = 6700"
proof -
  let ?N = "newFisher (roundDouble (27 / 10)) ''worms'' 5000"
  let ?S = "?N\<lparr>lastFishResponseTime := 4000\<rparr>"
  have h0: "lastFishResponseTime ?N = 0" by (simp add: newFisher_def)
  have r: "fsub (fmul (cooldown ?S) 1000) (of_int (now ?S - lastFishResponseTime ?S)) = 1700"
    by code_simp
  have m: "fmul (fdiv 1700 1000) 1000 = 1700"
    by code_simp
  have v: "lastFishResponseTime ?S \<noteq> 0" "now ?S = 5000" "trace ?S = []"
    "overshoot (steadyPage []) 5000 = 0"
    by (simp_all add: newFisher_def steadyPage_def)
  from C5_cooldown_gate[of ?N "steadyPage []"] h0
  have a: "waitForCooldown (steadyPage []) ?N = ?N" by blast
  from C5_cooldown_gate[of ?S "steadyPage []"] r m v
  have "trace (waitForCooldown (steadyPage []) ?S) = [Wait 1700] \<and>
        now (waitForCooldown (steadyPage []) ?S) = 6700"
    by (simp add: Let_def)
  with a show ?thesis by simp
qed

text \<open>
  The claim C5 as it was stated fails in its \<open>exactly\<close>: with a cooldown of 2.7
  seconds and a fish response 1699 milliseconds ago the remainder is 1001 milliseconds,
  and the suspension asked for is \<open>1001 - 1 / 2 ^ 43\<close>, the number that the source
  prints as \<open>1000.9999999999999\<close>.
\<close>

theorem C5_exact_remainder_counterexample:
  "fsub (fmul (cooldown ((newFisher (roundDouble (27 / 10)) ''worms'' 5699)
                           \<lparr>lastFishResponseTime := 4000\<rparr>)) 1000)
        (of_int (now ((newFisher (roundDouble (27 / 10)) ''worms'' 5699)
                        \<lparr>lastFishResponseTime := 4000\<rparr>) -
                 lastFishResponseTime ((newFisher (roundDouble (27 / 10)) ''worms'' 5699)
                                         \<lparr>lastFishResponseTime := 4000\<rparr>))) = 1001 \<and>
   trace (waitForCooldown (steadyPage [])
            ((newFisher (roundDouble (27 / 10)) ''worms'' 5699)
               \<lparr>lastFishResponseTime := 4000\<rparr>)) = [Wait (1001 - 1 / 2 ^ 43)] \<and>
   trace (waitForCooldown (steadyPage [])
            ((newFisher (roundDouble (27 / 10)) ''worms'' 5699)
               \<lparr>lastFishResponseTime := 4000\<rparr>)) \<noteq> [Wait 1001]"
proof -
  let ?S = "(newFisher (roundDouble (27 / 10)) ''worms'' 5699)\<lparr>lastFishResponseTime := 4000\<rparr>"
  have r: "fsub (fmul (cooldown ?S) 1000) (of_int (now ?S - lastFishResponseTime ?S)) = 1001"
    by code_simp
  have t: "trace (waitForCooldown (steadyPage []) ?S) = [Wait (1001 - 1 / 2 ^ 43)]"
    by code_simp
  have "(1001 - 1 / 2 ^ 43 :: rat) \<noteq> 1001" by simp
  with r t show ?thesis by simp
qed

text \<open>
  Claim C6, as amended. The next action is a matter of the most recent entry only: two
  pages with the same timers whose most recent entries have the same text at every
  moment lead \<open>determineNextAction\<close> to the same answer and the same state, whatever
  their earlier entries are.
\<close>

theorem C6_only_most_recent_entry:
  assumes "overshoot p' = overshoot p"
    and "\<forall>t. mostRecentEntry p' t = mostRecentEntry p t"
  shows "determineNextAction p' s = determineNextAction p s"
  using getLastMessage_loop_cong[OF assms]
  by (simp add: determineNextAction_def getLastMessage_def)

theorem C6_only_most_recent_entry_witness:
  "determineNextAction
     (steadyPage [Some ''You ran out of worms!'', Some ''You caught a fish, nice''])
     (newFisher (7 / 2) ''worms'' 1000) =
   determineNextAction (steadyPage [Some ''You caught a fish, nice''])
     (newFisher (7 / 2) ''worms'' 1000)"
proof -
  have o: "overshoot (steadyPage [Some ''You ran out of worms!'', Some ''You caught a fish, nice'']) =
           overshoot (steadyPage [Some ''You caught a fish, nice''])"
    by (simp add: steadyPage_def)
  have m: "\<forall>t. mostRecentEntry
                 (steadyPage [Some ''You ran out of worms!'', Some ''You caught a fish, nice'']) t =
               mostRecentEntry (steadyPage [Some ''You caught a fish, nice'']) t"
    by (simp add: steadyPage_def mostRecentEntry_def)
  from C6_only_most_recent_entry[OF o m] show ?thesis .
qed

text \<open>
  The claim C6 as it was stated fails: here the entry before the last one has the
  depletion phrase, and the next action is \<open>fish\<close>, not \<open>sell\<close>.
\<close>

theorem C6_next_to_last_entry_counterexample:
  "str_includes (toLowerCase ''You ran out of worms!'') ''you ran out of'' \<and>
   fst (determineNextAction
          (steadyPage [Some ''You ran out of worms!'', Some ''You caught a fish, nice''])
          (newFisher (7 / 2) ''worms'' 1000)) = ''fish''"
  by code_simp

text \<open>
  Claim C7. Whatever the last message is, the next action is one of \<open>fish\<close>, \<open>sell\<close>
  and \<open>buy\<close>; so is the action that a pass hands to the next pass; and \<open>start\<close>, for
  any fuel, never ends with the error of an unknown action.
\<close>

theorem C7_next_action_known:
  "nextActionOf m \<in> {''fish'', ''sell'', ''buy''} \<and>
   fst (determineNextAction p s) \<in> {''fish'', ''sell'', ''buy''} \<and>
   (cycle p a s = (s', Inr a') \<longrightarrow> a' \<in> {''fish'', ''sell'', ''buy''}) \<and>
   snd (start n p s) \<noteq> Some (Inl (UnknownAction x))"
proof (intro conjI)
  show "nextActionOf m \<in> {''fish'', ''sell'', ''buy''}" by (rule nextActionOf_known)
  show "fst (determineNextAction p s) \<in> {''fish'', ''sell'', ''buy''}"
    using nextActionOf_known by (simp add: determineNextAction_def split: prod.splits)
  show "cycle p a s = (s', Inr a') \<longrightarrow> a' \<in> {''fish'', ''sell'', ''buy''}"
    using cycle_next_known by blast
  show "snd (start n p s) \<noteq> Some (Inl (UnknownAction x))"
    unfolding start_def by (rule start_loop_known) simp
qed

theorem C7_next_action_known_witness:
  "cycle (steadyPage [Some ''You ran out of worms'']) ''fish'' (newFisher (7 / 2) ''worms'' 1000) =
     ((newFisher (7 / 2) ''worms'' 1000)
        \<lparr>lastFishResponseTime := 1600, now := 1600,
         trace := [Command ''/fish'', Wait 100, Wait 100, Wait 100, Wait 300]\<rparr>,
      Inr ''sell'') \<and>
   ''sell'' \<in> {''fish'', ''sell'', ''buy''}"
proof -
  have run: "cycle (steadyPage [Some ''You ran out of worms'']) ''fish'' (newFisher (7 / 2) ''worms'' 1000) =
     ((newFisher (7 / 2) ''worms'' 1000)
        \<lparr>lastFishResponseTime := 1600, now := 1600,
         trace := [Command ''/fish'', Wait 100, Wait 100, Wait 100, Wait 300]\<rparr>,
      Inr ''sell'')"
    by code_simp
  from C7_next_action_known[where p = "steadyPage [Some ''You ran out of worms'']"
      and a = "''fish''" and s = "newFisher (7 / 2) ''worms'' 1000"] run
  show ?thesis by blast
qed

text \<open>
  Claim C8. A pass whose action is not \<open>fish\<close> ends with the \<open>lastFishResponseTime\<close>
  it began with. A pass for \<open>fish\<close> ends, with or without an error, with
  \<open>lastFishResponseTime\<close> being the clock at the end of the wait for the response to
  \<open>/fish\<close> and of the 0.3 seconds after it.
\<close>

theorem C8_response_time_frame:
  assumes "cycle p a s = (s', r)"
  shows "(a \<noteq> ''fish'' \<longrightarrow> lastFishResponseTime s' = lastFishResponseTime s) \<and>
         (a = ''fish'' \<longrightarrow>
            (let s1 = waitForCooldown p s;
                 s3 = snd (waitForMessagesSettled p (getMessageCount p s1) 300 5000
                             (sendCommand ''/fish'' s1))
             in lastFishResponseTime s' = now (wait p 300 s3)))"
proof -
  obtain s5 r5 where a5: "actAndSettle p a s = (s5, r5)" by (cases "actAndSettle p a s")
  have rest: "lastFishResponseTime s' = lastFishResponseTime s5"
  proof (cases r5)
    case (Inl e)
    with a5 assms show ?thesis by (simp add: cycle_def)
  next
    case (Inr u)
    with a5 assms have "detectAndDecide p s5 = (s', r)" by (simp add: cycle_def)
    from detectAndDecide_frame(2)[OF this] show ?thesis .
  qed
  consider (fish) "a = ''fish''" | (other) "a = ''sell'' \<or> a = ''buy''"
    | (unknown) "a \<notin> {''fish'', ''sell'', ''buy''}" by blast
  then show ?thesis
  proof cases
    case fish
    obtain s3 r3 where
      w: "waitForMessagesSettled p (getMessageCount p (waitForCooldown p s)) 300 5000
       (sendCommand ''/fish'' (waitForCooldown p s)) = (r3, s3)"
      and a: "actAndSettle p ''fish'' s =
       ((wait p 300 s3)\<lparr>lastFishResponseTime := now (wait p 300 s3)\<rparr>, Inr ())"
      by (rule actAndSettle_fish)
    from a a5 fish have "lastFishResponseTime s5 = now (wait p 300 s3)" by auto
    with rest w fish show ?thesis by (simp add: Let_def)
  next
    case other
    then obtain s2 s3 r3 where e: "executeAction a s = (s2, Inr ())"
      and w: "waitForMessagesSettled p (getMessageCount p s) 300 5000 s2 = (r3, s3)"
      and a: "actAndSettle p a s = (wait p 300 s3, Inr ())"
      by (rule actAndSettle_other)
    have "lastFishResponseTime s2 = lastFishResponseTime s"
      using e other by (auto simp: executeAction_known)
    with waitForMessagesSettled_frame(2)[OF w] a a5
    have "lastFishResponseTime s5 = lastFishResponseTime s" by auto
    with rest other show ?thesis by auto
  next
    case unknown
    with a5 have "s5 = s" by (simp add: actAndSettle_unknown)
    with rest unknown show ?thesis by auto
  qed
qed

theorem C8_response_time_frame_witness:
  "lastFishResponseTime
     (fst (cycle (steadyPage [Some ''You sold all your items'']) ''sell''
             ((newFisher (7 / 2) ''worms'' 5000)\<lparr>lastFishResponseTime := 4000\<rparr>))) = 4000 \<and>
   lastFishResponseTime
     (fst (cycle (steadyPage [Some ''You ran out of worms'']) ''fish''
             (newFisher (7 / 2) ''worms'' 1000))) = 1600"
proof -
  let ?P = "steadyPage [Some ''You sold all your items'']"
  let ?S = "(newFisher (7 / 2) ''worms'' 5000)\<lparr>lastFishResponseTime := 4000\<rparr>"
  let ?Q = "steadyPage [Some ''You ran out of worms'']"
  let ?T = "newFisher (7 / 2) ''worms'' 1000"
  have c1: "cycle ?P ''sell'' ?S = (fst (cycle ?P ''sell'' ?S), snd (cycle ?P ''sell'' ?S))"
    by simp
  have c2: "cycle ?Q ''fish'' ?T = (fst (cycle ?Q ''fish'' ?T), snd (cycle ?Q ''fish'' ?T))"
    by simp
  have d: "''sell'' \<noteq> ''fish''" by simp
  have v: "lastFishResponseTime ?S = 4000" by (simp add: newFisher_def)
  have w: "now (wait ?Q 300 (snd (waitForMessagesSettled ?Q
              (getMessageCount ?Q (waitForCooldown ?Q ?T)) 300 5000
              (sendCommand ''/fish'' (waitForCooldown ?Q ?T))))) = 1600"
    by code_simp
  from C8_response_time_frame[OF c1] d v
  have a: "lastFishResponseTime (fst (cycle ?P ''sell'' ?S)) = 4000" by simp
  from C8_response_time_frame[OF c2] w
  have b: "lastFishResponseTime (fst (cycle ?Q ''fish'' ?T)) = 1600" by (simp add: Let_def)
  from a b show ?thesis by simp
qed

text \<open>
  Claim C9. The result of the captcha check is a function of the texts of the two most
  recent entries: wherever and whenever these are read the same, the result is the same.
\<close>

theorem C9_detection_function_of_entries:
  assumes "getLastMessages p 2 s = getLastMessages p' 2 s'"
  shows "detectCaptcha p s = detectCaptcha p' s'"
  using assms by (simp add: detectCaptcha_def)

theorem C9_detection_function_of_entries_witness:
  "getLastMessages (steadyPage [Some ''hello'', Some ''You caught a cod'', Some ''Anti-bot! Code: K9'']) 2
     (newFisher (7 / 2) ''worms'' 1000) =
   getLastMessages (arrivalPage [Some ''You caught a cod''] 500 [Some ''Anti-bot! Code: K9'']) 2
     (newFisher (5 / 2) ''leeches'' 800) \<and>
   detectCaptcha (steadyPage [Some ''hello'', Some ''You caught a cod'', Some ''Anti-bot! Code: K9''])
     (newFisher (7 / 2) ''worms'' 1000) =
   detectCaptcha (arrivalPage [Some ''You caught a cod''] 500 [Some ''Anti-bot! Code: K9''])
     (newFisher (5 / 2) ''leeches'' 800)"
proof -
  have h: "getLastMessages (steadyPage [Some ''hello'', Some ''You caught a cod'', Some ''Anti-bot! Code: K9'']) 2
     (newFisher (7 / 2) ''worms'' 1000) =
   getLastMessages (arrivalPage [Some ''You caught a cod''] 500 [Some ''Anti-bot! Code: K9'']) 2
     (newFisher (5 / 2) ''leeches'' 800)"
    by code_simp
  from h C9_detection_function_of_entries[OF h] show ?thesis by simp
qed

text \<open>
  Claim C10. Let every entry on the timeline, from the call on, read as the empty
  string, because the read fails or the text is empty; a timeline with no entries is
  such a timeline. Then a read of the last \<open>n\<close> messages returns empty strings only,
  the read of the last message returns the empty string, the captcha check finds
  nothing, and the next action is \<open>fish\<close>.
\<close>

theorem C10_empty_timeline_total:
  assumes "\<forall>t\<ge>now s. \<forall>e\<in>set (timeline p t). textContent e = []"
  shows "(\<forall>m\<in>set (getLastMessages p n s). m = []) \<and>
         fst (getLastMessage p s) = [] \<and>
         detectCaptcha p s = None \<and>
         fst (determineNextAction p s) = ''fish''"
proof -
  have here: "\<forall>e\<in>set (timeline p (now s)). textContent e = []" using assms by auto
  then have all: "\<forall>m\<in>set (getLastMessages p k s). m = []" for k
    by (auto simp: getLastMessages_drop dest: in_set_dropD)
  obtain m s' where g: "getLastMessage p s = (m, s')" by (cases "getLastMessage p s")
  from getLastMessage_frame(5,7)[OF g] assms have "m = []"
    by (simp add: mostRecentEntry_empty)
  with g have one: "fst (getLastMessage p s) = []" by simp
  have "find (\<lambda>m. str_includes (toLowerCase m) ''anti-bot'') (getLastMessages p 2 s) = None"
    using all[of 2] by (intro find_marker_None) (auto simp: toLowerCase_def)
  then have none: "detectCaptcha p s = None" by (simp add: detectCaptcha_def)
  have "fst (determineNextAction p s) = ''fish''"
    using g \<open>m = []\<close> by (simp add: determineNextAction_def nextActionOf_empty)
  with all one none show ?thesis by blast
qed

theorem C10_empty_timeline_total_witness:
  "getLastMessages (steadyPage [None, Some [], None]) 2 (newFisher (7 / 2) ''worms'' 1000) = [[], []] \<and>
   fst (getLastMessage (steadyPage [None, Some [], None]) (newFisher (7 / 2) ''worms'' 1000)) = [] \<and>
   detectCaptcha (steadyPage [None, Some [], None]) (newFisher (7 / 2) ''worms'' 1000) = None \<and>
   fst (determineNextAction (steadyPage [None, Some [], None]) (newFisher (7 / 2) ''worms'' 1000)) = ''fish'' \<and>
   getLastMessages (steadyPage []) 2 (newFisher (7 / 2) ''worms'' 1000) = [] \<and>
   fst (getLastMessage (steadyPage []) (newFisher (7 / 2) ''worms'' 1000)) = [] \<and>
   detectCaptcha (steadyPage []) (newFisher (7 / 2) ''worms'' 1000) = None \<and>
   fst (determineNextAction (steadyPage []) (newFisher (7 / 2) ''worms'' 1000)) = ''fish''"
proof -
  let ?S = "newFisher (7 / 2) ''worms'' 1000"
  have h1: "\<forall>t\<ge>now ?S. \<forall>e\<in>set (timeline (steadyPage [None, Some [], None]) t). textContent e = []"
    by (simp add: steadyPage_def textContent_def)
  have h2: "\<forall>t\<ge>now ?S. \<forall>e\<in>set (timeline (steadyPage []) t). textContent e = []"
    by (simp add: steadyPage_def)
  have g1: "getLastMessages (steadyPage [None, Some [], None]) 2 ?S = [[], []]"
    by code_simp
  have g2: "getLastMessages (steadyPage []) 2 ?S = []"
    by code_simp
  from C10_empty_timeline_total[OF h1, of 2] C10_empty_timeline_total[OF h2, of 2] g1 g2
  show ?thesis by simp
qed

end
